theory Spec2Isabelle
  imports Main "HOL-Library.Char_ord" "HOL-Library.List_Lexorder" "HOL-Library.AList"
begin

section \<open>JavaScript values and string helpers\<close>

text \<open>
  JavaScript strings are modelled as \<^typ>\<open>string\<close>; a character stands for one code unit
  below 256. Numbers are modelled as \<^typ>\<open>int\<close> (the programs only use integral values).
\<close>

text \<open>\<^verbatim>\<open>String(n)\<close> / template-literal rendering of a non-negative integer.\<close>

definition digit_char :: "nat \<Rightarrow> char" where
  "digit_char d = ''0123456789'' ! d"

fun decimal :: "nat \<Rightarrow> string" where
  "decimal n = (if n < 10 then [digit_char n] else decimal (n div 10) @ [digit_char (n mod 10)])"

declare decimal.simps [simp del]

definition number_toString :: "int \<Rightarrow> string" where
  "number_toString i = (if i < 0 then CHR ''-'' # decimal (nat (- i)) else decimal (nat i))"

text \<open>
  \<^verbatim>\<open>str.replace(pattern, replacement)\<close> with a string pattern: only the first occurrence
  is replaced. (The replacements used here are decimal numerals, which contain no
  \<^verbatim>\<open>$\<close> escape.)
\<close>

fun replace_first :: "string \<Rightarrow> string \<Rightarrow> string \<Rightarrow> string" where
  "replace_first pat rep [] = (if pat = [] then rep else [])"
| "replace_first pat rep (c # cs) =
     (if take (length pat) (c # cs) = pat then rep @ drop (length pat) (c # cs)
      else c # replace_first pat rep cs)"

text \<open>\<^verbatim>\<open>Array.prototype.slice(start, end)\<close>, negative indices counting from the end.\<close>

definition js_slice :: "'a list \<Rightarrow> int \<Rightarrow> int \<Rightarrow> 'a list" where
  "js_slice xs s e =
     (let n = int (length xs);
          k = (if s < 0 then max (n + s) 0 else min s n);
          f = (if e < 0 then max (n + e) 0 else min e n)
      in take (nat (f - k)) (drop (nat k) xs))"

section \<open>url_generator.js: the partitioner\<close>

definition BASE_URL :: string where
  "BASE_URL = ''https://myip.ms/browse/sites/{page}/rankii/15000000/ipID/23.227.38.0/ipIDii/23.227.38.255''"

definition page_url :: "int \<Rightarrow> string" where
  "page_url page = replace_first ''{page}'' (number_toString page) BASE_URL"

text \<open>
  \<^verbatim>\<open>generateUrlList\<close>: the loop \<^verbatim>\<open>for (page = 1; page <= TOTAL_PAGES; page++)\<close>, with the
  constant \<^verbatim>\<open>TOTAL_PAGES\<close> taken as a parameter.
\<close>

definition generateUrlList :: "int \<Rightarrow> string list" where
  "generateUrlList totalPages = map page_url [1 .. totalPages]"

text \<open>
  \<^verbatim>\<open>chunkUrls\<close>: the loop \<^verbatim>\<open>for (i = 0; i < urls.length; i += chunkSize)\<close>. Nothing in
  the source bounds \<^verbatim>\<open>chunkSize\<close> from below, so the loop need not terminate; the
  result \<^term>\<open>None\<close> stands for a loop that never returns.
\<close>

partial_function (option) chunkUrls_loop ::
  "string list \<Rightarrow> int \<Rightarrow> int \<Rightarrow> string list list \<Rightarrow> string list list option" where
  "chunkUrls_loop urls chunkSize i chunks =
     (if i < int (length urls)
      then chunkUrls_loop urls chunkSize (i + chunkSize) (chunks @ [js_slice urls i (i + chunkSize)])
      else Some chunks)"

definition chunkUrls :: "string list \<Rightarrow> int \<Rightarrow> string list list option" where
  "chunkUrls urls chunkSize = chunkUrls_loop urls chunkSize 0 []"

text \<open>
  The first two statements of \<^verbatim>\<open>main\<close>, with \<^verbatim>\<open>TOTAL_PAGES\<close> and \<^verbatim>\<open>CHUNK_SIZE\<close> as
  parameters: the list of work chunks handed to \<^verbatim>\<open>saveChunks\<close>.
\<close>

definition partition :: "int \<Rightarrow> int \<Rightarrow> string list list option" where
  "partition totalPages chunkSize = chunkUrls (generateUrlList totalPages) chunkSize"

section \<open>url_generator.js: writing the chunk files\<close>

text \<open>
  \<^verbatim>\<open>saveChunks\<close>. The directory \<^verbatim>\<open>chunks/\<close> is a map from file names to contents. Existing
  files named \<^verbatim>\<open>chunk_*.txt\<close> are removed, chunk number \<open>index + 1\<close> is written to
  \<^verbatim>\<open>chunk_<number padded to 4 digits>.txt\<close> as its URLs joined by newlines, and the manifest
  is written last.
\<close>

type_synonym directory = "string \<rightharpoonup> string"

definition startsWith :: "string \<Rightarrow> string \<Rightarrow> bool" where
  "startsWith s p = (take (length p) s = p)"

definition endsWith :: "string \<Rightarrow> string \<Rightarrow> bool" where
  "endsWith s p = (length p \<le> length s \<and> drop (length s - length p) s = p)"

definition padStart :: "nat \<Rightarrow> char \<Rightarrow> string \<Rightarrow> string" where
  "padStart n c s = replicate (n - length s) c @ s"

fun join :: "string \<Rightarrow> string list \<Rightarrow> string" where
  "join sep [] = []"
| "join sep [x] = x"
| "join sep (x # y # ys) = x @ sep @ join sep (y # ys)"

definition chunk_file_name :: "string \<Rightarrow> string" where
  "chunk_file_name number = ''chunk_'' @ number @ ''.txt''"

definition clear_chunk_files :: "directory \<Rightarrow> directory" where
  "clear_chunk_files dir =
     (\<lambda>file. if startsWith file ''chunk_'' \<and> endsWith file ''.txt'' then None else dir file)"

fun write_chunks :: "directory \<Rightarrow> nat \<Rightarrow> string list list \<Rightarrow> directory" where
  "write_chunks dir index [] = dir"
| "write_chunks dir index (chunk # rest) =
     write_chunks
       (dir(chunk_file_name (padStart 4 (CHR ''0'') (decimal (index + 1))) \<mapsto> join [CHR 0x0A] chunk))
       (Suc index) rest"

definition manifest_json :: "int \<Rightarrow> int \<Rightarrow> nat \<Rightarrow> string \<Rightarrow> string" where
  "manifest_json totalPages chunkSize totalChunks generatedAt =
     ''{'' @ [CHR 0x0A] @
     ''  \"totalPages\": '' @ number_toString totalPages @ '','' @ [CHR 0x0A] @
     ''  \"chunkSize\": '' @ number_toString chunkSize @ '','' @ [CHR 0x0A] @
     ''  \"totalChunks\": '' @ decimal totalChunks @ '','' @ [CHR 0x0A] @
     ''  \"generatedAt\": \"'' @ generatedAt @ ''\"'' @ [CHR 0x0A] @
     ''}''"

definition saveChunks :: "int \<Rightarrow> int \<Rightarrow> string \<Rightarrow> directory \<Rightarrow> string list list \<Rightarrow> directory" where
  "saveChunks totalPages chunkSize generatedAt dir chunks =
     (write_chunks (clear_chunk_files dir) 0 chunks)
       (''manifest.json'' \<mapsto> manifest_json totalPages chunkSize (length chunks) generatedAt)"

section \<open>worker_script.js: loading a chunk\<close>

text \<open>White space as matched by \<^verbatim>\<open>\s\<close> and removed by \<^verbatim>\<open>trim()\<close>, among the code units below 256.\<close>

definition is_space :: "char \<Rightarrow> bool" where
  "is_space c \<longleftrightarrow> c = CHR 0x09 \<or> c = CHR 0x0A \<or> c = CHR 0x0B \<or> c = CHR 0x0C \<or> c = CHR 0x0D
                 \<or> c = CHR 0x20 \<or> c = CHR 0xA0"

definition trim :: "string \<Rightarrow> string" where
  "trim s = rev (dropWhile is_space (rev (dropWhile is_space s)))"

text \<open>\<^verbatim>\<open>content.split("\n")\<close>: the pieces between separators; an empty string gives one empty piece.\<close>

fun split_on :: "char \<Rightarrow> string \<Rightarrow> string list" where
  "split_on sep [] = [[]]"
| "split_on sep (c # cs) =
     (if c = sep then [] # split_on sep cs
      else (case split_on sep cs of [] \<Rightarrow> [[c]] | w # ws \<Rightarrow> (c # w) # ws))"

datatype load_error = ChunkFileNotFound string | NoUrlsFound string

text \<open>
  \<^verbatim>\<open>loadUrlsFromChunk\<close>: reads \<^verbatim>\<open>chunks/chunk_${chunkNumber}.txt\<close>; both \<^verbatim>\<open>throw\<close> statements
  are \<^term>\<open>Inl\<close> results.
\<close>

definition loadUrlsFromChunk :: "directory \<Rightarrow> string \<Rightarrow> load_error + string list" where
  "loadUrlsFromChunk dir chunkNumber =
     (case dir (chunk_file_name chunkNumber) of
        None \<Rightarrow> Inl (ChunkFileNotFound (chunk_file_name chunkNumber))
      | Some content \<Rightarrow>
          (let urls = filter (\<lambda>url. trim url \<noteq> []) (split_on (CHR 0x0A) content)
           in if length urls = 0 then Inl (NoUrlsFound (chunk_file_name chunkNumber))
              else Inr urls))"

section \<open>worker_script.js: extracting the rows of one page\<close>

text \<open>
  \<^verbatim>\<open>str.replace(/\s+/g, "-")\<close>: every maximal run of white space becomes one hyphen.
\<close>

function replace_ws :: "string \<Rightarrow> string" where
  "replace_ws [] = []"
| "replace_ws (c # cs) =
     (if is_space c then CHR ''-'' # replace_ws (dropWhile is_space cs) else c # replace_ws cs)"
  by pat_completeness auto
termination
  by (relation "measure length") (auto simp: length_dropWhile_le less_Suc_eq_le)

text \<open>\<^verbatim>\<open>str.includes(sub)\<close>.\<close>

fun js_includes :: "string \<Rightarrow> string \<Rightarrow> bool" where
  "js_includes [] sub = (sub = [])"
| "js_includes (c # cs) sub = (take (length sub) (c # cs) = sub \<or> js_includes cs sub)"

text \<open>
  A table cell as the extraction sees it: its text and its first \<^verbatim>\<open>a\<close> descendant. The
  text of a descendant is a contiguous part of the text of the cell, so a cell is given
  by the text before the anchor, the anchor (text and \<^verbatim>\<open>href\<close>) and the text after it.
\<close>

record anchor =
  a_text :: string
  a_href :: string

record cell =
  text_before :: string
  first_anchor :: "anchor option"
  text_after :: string

definition textContent :: "cell \<Rightarrow> string" where
  "textContent c =
     text_before c @ (case first_anchor c of None \<Rightarrow> [] | Some a \<Rightarrow> a_text a) @ text_after c"

text \<open>The loaded document: the \<^verbatim>\<open>tr\<close> rows of \<^verbatim>\<open>#sites_tbl\<close> (if present), each with its
  \<^verbatim>\<open>td, th\<close> cells, and \<^verbatim>\<open>window.location.href\<close>.\<close>

record document =
  sites_tbl :: "cell list list option"
  location_href :: string

record row =
  rank :: string
  domain :: string
  domainUrl :: string
  ipAddress :: string
  ipAddressUrl :: string
  location :: string
  owner :: string
  ownerUrl :: string
  lastUpdate :: string
  sourceUrl :: string
  scrapedAt :: string
  uniqueId :: string

text \<open>\<^verbatim>\<open>cells[k]?.textContent?.trim()\<close> and \<^verbatim>\<open>cells[k]?.querySelector("a")\<close>;
  \<^term>\<open>None\<close> is \<^verbatim>\<open>undefined\<close>.\<close>

definition cell_text :: "cell list \<Rightarrow> nat \<Rightarrow> string option" where
  "cell_text cells k = (if k < length cells then Some (trim (textContent (cells ! k))) else None)"

definition cell_link :: "cell list \<Rightarrow> nat \<Rightarrow> anchor option" where
  "cell_link cells k = (if k < length cells then first_anchor (cells ! k) else None)"

text \<open>\<^verbatim>\<open>x || d\<close> for a string or \<^verbatim>\<open>undefined\<close> on the left: the empty string is falsy.\<close>

fun js_or :: "string option \<Rightarrow> string \<Rightarrow> string" where
  "js_or None d = d"
| "js_or (Some s) d = (if s = [] then d else s)"

text \<open>
  The body of the \<^verbatim>\<open>map\<close> callback of \<^verbatim>\<open>scrapePage\<close>. \<open>href\<close> is \<^verbatim>\<open>window.location.href\<close>
  and \<open>now\<close> the clock reading \<^verbatim>\<open>new Date().toISOString()\<close>.
\<close>

definition extract_row :: "string \<Rightarrow> string \<Rightarrow> nat \<Rightarrow> cell list \<Rightarrow> row" where
  "extract_row href now index cells =
     (let rank = js_or (cell_text cells 0) (''row-'' @ decimal (index + 1));
          domainLink = cell_link cells 1;
          ipLink = cell_link cells 2;
          ownerLink = cell_link cells 4
      in \<lparr> rank = rank,
           domain = js_or (cell_text cells 1) (js_or (map_option (\<lambda>a. trim (a_text a)) domainLink) []),
           domainUrl = js_or (map_option a_href domainLink) [],
           ipAddress = js_or (cell_text cells 2) (js_or (map_option (\<lambda>a. trim (a_text a)) ipLink) []),
           ipAddressUrl = js_or (map_option a_href ipLink) [],
           location = js_or (cell_text cells 3) [],
           owner = js_or (cell_text cells 4) (js_or (map_option (\<lambda>a. trim (a_text a)) ownerLink) []),
           ownerUrl = js_or (map_option a_href ownerLink) [],
           lastUpdate = js_or (cell_text cells 5) [],
           sourceUrl = href,
           scrapedAt = now,
           uniqueId = replace_ws (rank @ ''-'' @ js_or (cell_text cells 1) []) \<rparr>)"

text \<open>
  The function evaluated in the page: no table gives no rows; the first \<^verbatim>\<open>tr\<close> is skipped;
  the rest is mapped (with its index) and filtered by \<^verbatim>\<open>row.domain || row.ipAddress\<close>.
\<close>

definition extract_table :: "(nat \<Rightarrow> string) \<Rightarrow> document \<Rightarrow> row list" where
  "extract_table now doc =
     (case sites_tbl doc of
        None \<Rightarrow> []
      | Some rows \<Rightarrow>
          filter (\<lambda>r. domain r \<noteq> [] \<or> ipAddress r \<noteq> [])
            (map (\<lambda>(index, cells). extract_row (location_href doc) (now index) index cells)
               (enumerate 0 (drop 1 rows))))"

section \<open>worker_script.js: one page, and the loop over a chunk\<close>

text \<open>
  The value with which an awaited call rejects (the value that is thrown): a value whose
  \<^verbatim>\<open>message\<close> property can be read (an \<^verbatim>\<open>Error\<close> with its message, in general), \<^verbatim>\<open>null\<close> or
  \<^verbatim>\<open>undefined\<close>. Reading \<^verbatim>\<open>error.message\<close> of the last two throws a \<^verbatim>\<open>TypeError\<close>.
\<close>

datatype thrown = Has_message string | Thrown_null | Thrown_undefined

definition type_error :: "string \<Rightarrow> thrown" where
  "type_error what = Has_message (''Cannot read properties of '' @ what @ '' (reading 'message')'')"

text \<open>The result of an awaited call: it throws or returns.\<close>

datatype 'a outcome = Throws thrown | Returns 'a

text \<open>
  What the page driver does during one call of \<^verbatim>\<open>scrapePage\<close>: the outcome of each driver
  call the function makes, in the order it makes them.
\<close>

record page_visit =
  goto_result :: "unit outcome"
  mouse_move_result :: "unit outcome"
  scroll_result :: "unit outcome"
  title_result :: "string outcome"
  url_result :: string
  wait_for_table_result :: "unit outcome"
  evaluate_result :: "document outcome"

text \<open>
  The \<^verbatim>\<open>try\<close> block of \<^verbatim>\<open>scrapePage\<close>. \<^term>\<open>Returns None\<close> is \<^verbatim>\<open>return null\<close>; \<^term>\<open>Throws\<close>
  is an exception leaving the block. The time-out of \<^verbatim>\<open>waitForSelector\<close> has its own
  \<^verbatim>\<open>catch\<close>, which returns \<^verbatim>\<open>null\<close>.
\<close>

definition scrapePage_try :: "(nat \<Rightarrow> string) \<Rightarrow> page_visit \<Rightarrow> row list option outcome" where
  "scrapePage_try now v =
     (case goto_result v of Throws e \<Rightarrow> Throws e | Returns _ \<Rightarrow>
      case mouse_move_result v of Throws e \<Rightarrow> Throws e | Returns _ \<Rightarrow>
      case scroll_result v of Throws e \<Rightarrow> Throws e | Returns _ \<Rightarrow>
      case title_result v of Throws e \<Rightarrow> Throws e | Returns pageTitle \<Rightarrow>
      let pageUrl = url_result v in
      if js_includes pageTitle ''Verification'' \<or> js_includes pageTitle ''CAPTCHA'' \<or>
         js_includes pageUrl ''verify'' \<or> js_includes pageTitle ''Bot'' \<or>
         js_includes pageTitle ''Security Check''
      then Returns None
      else if js_includes pageUrl ''login'' \<or> js_includes pageTitle ''Login'' \<or>
              js_includes pageTitle ''Sign In''
      then Returns None
      else
        case wait_for_table_result v of Throws e \<Rightarrow> Returns None | Returns _ \<Rightarrow>
        case evaluate_result v of Throws e \<Rightarrow> Throws e
        | Returns doc \<Rightarrow> Returns (Some (extract_table now doc)))"

text \<open>
  \<^verbatim>\<open>scrapePage\<close>: the \<^verbatim>\<open>catch\<close> clause logs \<^verbatim>\<open>error.message\<close> and returns \<^verbatim>\<open>null\<close>. When the
  value caught is \<^verbatim>\<open>null\<close> or \<^verbatim>\<open>undefined\<close>, reading its \<^verbatim>\<open>message\<close> throws inside the
  clause, and that \<^verbatim>\<open>TypeError\<close> leaves the function.
\<close>

definition scrapePage :: "(nat \<Rightarrow> string) \<Rightarrow> page_visit \<Rightarrow> row list option outcome" where
  "scrapePage now v =
     (case scrapePage_try now v of
        Throws (Has_message m) \<Rightarrow> Returns None
      | Throws Thrown_null \<Rightarrow> Throws (type_error ''null'')
      | Throws Thrown_undefined \<Rightarrow> Throws (type_error ''undefined'')
      | Returns data \<Rightarrow> Returns data)"

record run_state =
  allData :: "row list"
  successCount :: nat
  failCount :: nat

text \<open>The branch \<^verbatim>\<open>if (data && data.length > 0) ... else ...\<close> of the loop body.\<close>

definition count_page :: "row list option \<Rightarrow> run_state \<Rightarrow> run_state" where
  "count_page data st =
     (case data of
        None \<Rightarrow> st\<lparr>failCount := failCount st + 1\<rparr>
      | Some rows \<Rightarrow>
          if length rows > 0
          then st\<lparr>allData := allData st @ rows, successCount := successCount st + 1\<rparr>
          else st\<lparr>failCount := failCount st + 1\<rparr>)"

text \<open>
  The loop \<^verbatim>\<open>for (i = 0; i < urls.length; i++)\<close> of \<^verbatim>\<open>main\<close>. \<open>browser i url\<close> is what the
  driver does at the \<open>i\<close>-th call \<^verbatim>\<open>scrapePage(page, url)\<close> and \<open>clock i\<close> the clock during it.
  An exception of the awaited call leaves the loop. (The pause between requests is a
  timer and is left out.)
\<close>

function scrape_loop ::
  "(nat \<Rightarrow> string \<Rightarrow> page_visit) \<Rightarrow> (nat \<Rightarrow> nat \<Rightarrow> string) \<Rightarrow> string list \<Rightarrow> nat \<Rightarrow> run_state
     \<Rightarrow> run_state outcome" where
  "scrape_loop browser clock urls i st =
     (if i < length urls
      then (case scrapePage (clock i) (browser i (urls ! i)) of
              Throws e \<Rightarrow> Throws e
            | Returns data \<Rightarrow> scrape_loop browser clock urls (Suc i) (count_page data st))
      else Returns st)"
  by pat_completeness auto
termination
  by (relation "measure (\<lambda>(browser, clock, urls, i, st). length urls - i)") auto

declare scrape_loop.simps [simp del]

text \<open>
  The loop followed by the save block of \<^verbatim>\<open>main\<close>: the file is written only under
  \<^verbatim>\<open>if (allData.length > 0)\<close>. \<open>finishedAt\<close> is \<^verbatim>\<open>new Date().toISOString()\<close> and \<open>save_result\<close>
  the outcome of the awaited \<^verbatim>\<open>saveToCSV\<close>. An exception that leaves this block reaches the
  outer \<^verbatim>\<open>catch\<close> of \<^verbatim>\<open>main\<close> (after the browser is closed) and the process exits with
  status 1.
\<close>

record chunk_run =
  counters :: run_state
  written :: "(string \<times> row list) option"

definition output_file_name :: "string \<Rightarrow> string \<Rightarrow> string" where
  "output_file_name chunkNumber finishedAt =
     ''data_chunk_'' @ chunkNumber @ ''_'' @
     map (\<lambda>c. if c = CHR '':'' \<or> c = CHR ''.'' then CHR ''-'' else c) finishedAt @ ''.csv''"

definition process_chunk ::
  "(nat \<Rightarrow> string \<Rightarrow> page_visit) \<Rightarrow> (nat \<Rightarrow> nat \<Rightarrow> string) \<Rightarrow> string \<Rightarrow> string \<Rightarrow> unit outcome
     \<Rightarrow> string list \<Rightarrow> chunk_run outcome" where
  "process_chunk browser clock chunkNumber finishedAt save_result urls =
     (case scrape_loop browser clock urls 0 \<lparr>allData = [], successCount = 0, failCount = 0\<rparr> of
        Throws e \<Rightarrow> Throws e
      | Returns st \<Rightarrow>
          if length (allData st) > 0
          then (case save_result of
                  Throws e \<Rightarrow> Throws e
                | Returns _ \<Rightarrow>
                    Returns \<lparr>counters = st,
                             written = Some (output_file_name chunkNumber finishedAt, allData st)\<rparr>)
          else Returns \<lparr>counters = st, written = None\<rparr>)"

text \<open>
  \<^verbatim>\<open>saveToCSV\<close> of the worker: the columns of the file written for a row, under the
  titles of the header (a record read back from the file has these property names).
\<close>

datatype js_value = Str string | Null

type_synonym js_object = "(string \<times> js_value) list"

definition csv_record :: "row \<Rightarrow> js_object" where
  "csv_record r =
     [(''Rank'', Str (rank r)), (''Domain'', Str (domain r)), (''Domain_URL'', Str (domainUrl r)),
      (''IP_Address'', Str (ipAddress r)), (''IP_Address_URL'', Str (ipAddressUrl r)),
      (''Location'', Str (location r)), (''Owner'', Str (owner r)), (''Owner_URL'', Str (ownerUrl r)),
      (''Last_Update'', Str (lastUpdate r)), (''Source_URL'', Str (sourceUrl r)),
      (''Scraped_At'', Str (scrapedAt r)), (''Unique_ID'', Str (uniqueId r))]"

section \<open>The consolidation script\<close>

text \<open>
  A record is an object: a list of properties in insertion order. Reading a property
  that is not there gives \<^verbatim>\<open>undefined\<close> (\<^term>\<open>None\<close>); the values are strings (the columns
  of a CSV line) or \<^verbatim>\<open>null\<close>.
\<close>

definition get_prop :: "js_object \<Rightarrow> string \<Rightarrow> js_value option" where
  "get_prop obj name = map_of obj name"

definition set_prop :: "string \<Rightarrow> js_value \<Rightarrow> js_object \<Rightarrow> js_object" where
  "set_prop name v obj = AList.update name v obj"

definition delete_prop :: "string \<Rightarrow> js_object \<Rightarrow> js_object" where
  "delete_prop name obj = AList.delete name obj"

text \<open>Truthiness, and the text a template literal \<^verbatim>\<open>${x}\<close> puts for a value.\<close>

fun truthy :: "js_value option \<Rightarrow> bool" where
  "truthy None = False"
| "truthy (Some Null) = False"
| "truthy (Some (Str s)) = (s \<noteq> [])"

fun template :: "js_value option \<Rightarrow> string" where
  "template None = ''undefined''"
| "template (Some Null) = ''null''"
| "template (Some (Str s)) = s"

text \<open>\<^verbatim>\<open>extractTimestamp\<close>: the leftmost match of
  \<^verbatim>\<open>/(\d{4}-\d{2}-\d{2}T\d{2}-\d{2}-\d{2})/\<close> in the file name. In \<open>stamp_shape\<close> the letter
  \<open>d\<close> stands for \<^verbatim>\<open>\d\<close> and every other character for itself.\<close>

definition is_digit :: "char \<Rightarrow> bool" where
  "is_digit c \<longleftrightarrow> CHR ''0'' \<le> c \<and> c \<le> CHR ''9''"

definition stamp_shape :: string where
  "stamp_shape = ''dddd-dd-ddTdd-dd-dd''"

fun match_here :: "string \<Rightarrow> string \<Rightarrow> bool" where
  "match_here [] s = True"
| "match_here (p # ps) [] = False"
| "match_here (p # ps) (c # cs) =
     ((if p = CHR ''d'' then is_digit c else c = p) \<and> match_here ps cs)"

fun extractTimestamp :: "string \<Rightarrow> string option" where
  "extractTimestamp [] = None"
| "extractTimestamp (c # cs) =
     (if match_here stamp_shape (c # cs) then Some (take (length stamp_shape) (c # cs))
      else extractTimestamp cs)"

text \<open>
  The key of a record in \<^verbatim>\<open>deduplicateData\<close>:
  \<^verbatim>\<open>record.UniqueID || `${record.Rank}-${record.Domain}`\<close>.
\<close>

definition dedup_key :: "js_object \<Rightarrow> string" where
  "dedup_key record =
     (if truthy (get_prop record ''UniqueID'') then template (get_prop record ''UniqueID'')
      else template (get_prop record ''Rank'') @ ''-'' @ template (get_prop record ''Domain''))"

text \<open>
  The test \<^verbatim>\<open>record._source_timestamp && (!old._source_timestamp ||
  record._source_timestamp > old._source_timestamp)\<close>. The comparison is only reached with two
  non-empty strings and compares them code unit by code unit.
\<close>

fun newer :: "js_value option \<Rightarrow> js_value option \<Rightarrow> bool" where
  "newer (Some (Str a)) (Some (Str b)) = (a \<noteq> [] \<and> (b = [] \<or> a > b))"
| "newer (Some (Str a)) _ = (a \<noteq> [])"
| "newer _ _ = False"

text \<open>
  The body of the \<^verbatim>\<open>forEach\<close> of \<^verbatim>\<open>deduplicateData\<close>. The \<^verbatim>\<open>Map\<close> is a list of entries in
  insertion order; \<^verbatim>\<open>set\<close> on a key that is there replaces the value in place.
\<close>

definition dedup_step :: "(string \<times> js_object) list \<Rightarrow> js_object \<Rightarrow> (string \<times> js_object) list" where
  "dedup_step uniqueMap record =
     (let key = dedup_key record in
      case map_of uniqueMap key of
        None \<Rightarrow> AList.update key record uniqueMap
      | Some old \<Rightarrow>
          if newer (get_prop record ''_source_timestamp'') (get_prop old ''_source_timestamp'')
          then AList.update key record uniqueMap
          else uniqueMap)"

definition deduplicateData :: "js_object list \<Rightarrow> js_object list" where
  "deduplicateData data = map snd (foldl dedup_step [] data)"

text \<open>
  \<^verbatim>\<open>main\<close>, from the point where the files have been read (their names and records, in
  the order of the directory listing): each record gets its file's name and time stamp
  (\<^verbatim>\<open>null\<close> when the name has none), the records of all files are concatenated in the order
  of the files, deduplicated, and the two properties are deleted again. Listing and
  reading the files, and writing the result, are not part of this function.
\<close>

definition annotate :: "string \<Rightarrow> js_object \<Rightarrow> js_object" where
  "annotate file record =
     set_prop ''_source_timestamp'' (case extractTimestamp file of None \<Rightarrow> Null | Some t \<Rightarrow> Str t)
       (set_prop ''_source_file'' (Str file) record)"

definition strip_metadata :: "js_object \<Rightarrow> js_object" where
  "strip_metadata record = delete_prop ''_source_timestamp'' (delete_prop ''_source_file'' record)"

definition consolidate :: "(string \<times> js_object list) list \<Rightarrow> js_object list" where
  "consolidate files =
     map strip_metadata
       (deduplicateData (concat (map (\<lambda>(file, data). map (annotate file) data) files)))"

section \<open>Notions used in the statements\<close>

text \<open>Reference splitting of a list into consecutive blocks of \<open>n\<close> elements.\<close>

function blocks :: "nat \<Rightarrow> 'a list \<Rightarrow> 'a list list" where
  "blocks n xs = (if n = 0 \<or> xs = [] then [] else take n xs # blocks n (drop n xs))"
  by pat_completeness auto
termination
  by (relation "measure (\<lambda>(n, xs). length xs)") auto

declare blocks.simps [simp del]

text \<open>
  What the \<open>i\<close>-th call of \<^verbatim>\<open>scrapePage\<close> in the loop hands back (\<^term>\<open>None\<close> for \<^verbatim>\<open>null\<close>,
  and also when the call throws), its rows, whether an exception leaves the call, and
  whether the loop counts the page as a success.
\<close>

definition page_data ::
  "(nat \<Rightarrow> string \<Rightarrow> page_visit) \<Rightarrow> (nat \<Rightarrow> nat \<Rightarrow> string) \<Rightarrow> string list \<Rightarrow> nat \<Rightarrow> row list option" where
  "page_data browser clock urls i =
     (case scrapePage (clock i) (browser i (urls ! i)) of Throws e \<Rightarrow> None | Returns data \<Rightarrow> data)"

definition page_rows ::
  "(nat \<Rightarrow> string \<Rightarrow> page_visit) \<Rightarrow> (nat \<Rightarrow> nat \<Rightarrow> string) \<Rightarrow> string list \<Rightarrow> nat \<Rightarrow> row list" where
  "page_rows browser clock urls i =
     (case page_data browser clock urls i of None \<Rightarrow> [] | Some rows \<Rightarrow> rows)"

definition page_escapes ::
  "(nat \<Rightarrow> string \<Rightarrow> page_visit) \<Rightarrow> (nat \<Rightarrow> nat \<Rightarrow> string) \<Rightarrow> string list \<Rightarrow> nat \<Rightarrow> bool" where
  "page_escapes browser clock urls i \<longleftrightarrow>
     (case scrapePage (clock i) (browser i (urls ! i)) of Throws e \<Rightarrow> True | Returns data \<Rightarrow> False)"

definition page_succeeded ::
  "(nat \<Rightarrow> string \<Rightarrow> page_visit) \<Rightarrow> (nat \<Rightarrow> nat \<Rightarrow> string) \<Rightarrow> string list \<Rightarrow> nat \<Rightarrow> bool" where
  "page_succeeded browser clock urls i \<longleftrightarrow> page_rows browser clock urls i \<noteq> []"

definition initial_state :: run_state where
  "initial_state = \<lparr>allData = [], successCount = 0, failCount = 0\<rparr>"

section \<open>Example inputs\<close>

text \<open>Cells with plain text and cells whose text is a link.\<close>

definition text_cell :: "string \<Rightarrow> cell" where
  "text_cell s = \<lparr>text_before = s, first_anchor = None, text_after = []\<rparr>"

definition link_cell :: "string \<Rightarrow> string \<Rightarrow> cell" where
  "link_cell s href = \<lparr>text_before = [], first_anchor = Some \<lparr>a_text = s, a_href = href\<rparr>, text_after = []\<rparr>"

definition header_cells :: "cell list" where
  "header_cells = [text_cell ''No'', text_cell ''Web Site'', text_cell ''IP Address'',
                   text_cell ''Location'', text_cell ''Owner'', text_cell ''Updated'']"

definition full_cells :: "cell list" where
  "full_cells = [text_cell '' 12 '', link_cell ''example.com'' ''https://myip.ms/info/whois/example.com'',
                 link_cell ''23.227.38.32'' ''https://myip.ms/info/whois/23.227.38.32'',
                 text_cell ''Canada'', link_cell ''Shopify, Inc'' ''https://myip.ms/view/web_hosting/1'',
                 text_cell ''01 Jan 2024'']"

definition ip_only_cells :: "cell list" where
  "ip_only_cells = [text_cell ''13'', text_cell '' '', text_cell ''23.227.38.33'']"

definition blank_cells :: "cell list" where
  "blank_cells = [text_cell ''14'', text_cell [], text_cell '' '']"

text \<open>A page with a table of three data rows, a page whose table has only the header
  row, a challenge page, and a navigation that times out.\<close>

definition table_document :: document where
  "table_document = \<lparr>sites_tbl = Some [header_cells, full_cells, ip_only_cells, blank_cells],
                      location_href = ''https://myip.ms/browse/sites/1''\<rparr>"

definition header_only_document :: document where
  "header_only_document = \<lparr>sites_tbl = Some [header_cells],
                            location_href = ''https://myip.ms/browse/sites/2''\<rparr>"

definition table_page :: page_visit where
  "table_page = \<lparr>goto_result = Returns (), mouse_move_result = Returns (), scroll_result = Returns (),
                  title_result = Returns ''Web Sites'', url_result = ''https://myip.ms/browse/sites/1'',
                  wait_for_table_result = Returns (), evaluate_result = Returns table_document\<rparr>"

definition header_only_page :: page_visit where
  "header_only_page = table_page\<lparr>url_result := ''https://myip.ms/browse/sites/2'',
                                  evaluate_result := Returns header_only_document\<rparr>"

definition challenge_page :: page_visit where
  "challenge_page = table_page\<lparr>title_result := Returns ''Security Check'',
                                wait_for_table_result := Throws (Has_message ''waiting for selector failed'')\<rparr>"

definition timeout_page :: page_visit where
  "timeout_page = table_page\<lparr>goto_result := Throws (Has_message ''Navigation timeout of 500000 ms exceeded'')\<rparr>"

definition rejecting_page :: page_visit where
  "rejecting_page = table_page\<lparr>goto_result := Throws Thrown_undefined\<rparr>"

definition example_clock :: "nat \<Rightarrow> nat \<Rightarrow> string" where
  "example_clock i index = ''2024-01-01T00:00:00.000Z''"

text \<open>Four runs: a table, a challenge and a time-out; only failures; only a table
  without data rows; a table, a navigation rejected with \<^verbatim>\<open>undefined\<close>, and a table.\<close>

definition mixed_browser :: "nat \<Rightarrow> string \<Rightarrow> page_visit" where
  "mixed_browser i url = (if i = 0 then table_page else if i = 1 then challenge_page else timeout_page)"

definition failing_browser :: "nat \<Rightarrow> string \<Rightarrow> page_visit" where
  "failing_browser i url = (if i = 0 then challenge_page else timeout_page)"

definition rejecting_browser :: "nat \<Rightarrow> string \<Rightarrow> page_visit" where
  "rejecting_browser i url = (if i = 1 then rejecting_page else table_page)"

definition header_only_browser :: "nat \<Rightarrow> string \<Rightarrow> page_visit" where
  "header_only_browser i url = header_only_page"

section \<open>Notions used in the statements about consolidation\<close>

text \<open>
  The time stamp that \<^verbatim>\<open>deduplicateData\<close> compares (empty when the property is missing,
  \<^verbatim>\<open>null\<close> or empty), and what one step of the loop does to the record held for a key.
\<close>

definition stamp :: "js_object \<Rightarrow> string" where
  "stamp record = (case get_prop record ''_source_timestamp'' of Some (Str t) \<Rightarrow> t | _ \<Rightarrow> [])"

definition pick :: "js_object option \<Rightarrow> js_object \<Rightarrow> js_object option" where
  "pick held record =
     (case held of
        None \<Rightarrow> Some record
      | Some old \<Rightarrow> if stamp old < stamp record then Some record else Some old)"

text \<open>Two partial result sets with a row for the same rank and domain.\<close>

definition older_row :: js_object where
  "older_row = [(''Rank'', Str ''5''), (''Domain'', Str ''foo.com''), (''IP_Address'', Str ''23.227.38.1''),
                (''Unique_ID'', Str ''5-foo.com'')]"

definition newer_row :: js_object where
  "newer_row = [(''Rank'', Str ''5''), (''Domain'', Str ''foo.com''), (''IP_Address'', Str ''23.227.38.2''),
                (''Unique_ID'', Str ''5-foo.com'')]"

definition other_row :: js_object where
  "other_row = [(''Rank'', Str ''6''), (''Domain'', Str ''bar.com''), (''IP_Address'', Str ''23.227.38.3''),
                (''Unique_ID'', Str ''6-bar.com'')]"

text \<open>
  The records of two rows as the worker writes them: their ranks are \<open>1 2\<close> and \<open>1-2\<close>, so
  both have the \<open>uniqueId\<close> \<open>1-2-foo.com\<close>.
\<close>

definition spaced_rank_row :: js_object where
  "spaced_rank_row = csv_record (extract_row ''https://myip.ms/browse/sites/1''
      ''2024-01-01T10:00:00.000Z'' 0 [text_cell ''1 2'', text_cell ''foo.com'', text_cell ''23.227.38.1''])"

definition hyphen_rank_row :: js_object where
  "hyphen_rank_row = csv_record (extract_row ''https://myip.ms/browse/sites/1''
      ''2024-01-02T09:30:00.000Z'' 0 [text_cell ''1-2'', text_cell ''foo.com'', text_cell ''23.227.38.2''])"

text \<open>Two files written within the same second.\<close>

definition first_file_of_second :: string where
  "first_file_of_second = ''data_chunk_0001_2024-01-01T10-00-00-100Z.csv''"

definition second_file_of_second :: string where
  "second_file_of_second = ''data_chunk_0001_2024-01-01T10-00-00-900Z.csv''"

definition earlier_file :: string where
  "earlier_file = ''data_chunk_0001_2024-01-01T10-00-00-000Z.csv''"

definition later_file :: string where
  "later_file = ''data_chunk_0001_2024-01-02T09-30-00-000Z.csv''"

text \<open>The number that a string of decimal digits denotes.\<close>

definition digits_value :: "string \<Rightarrow> nat" where
  "digits_value s = foldl (\<lambda>a c. 10 * a + (of_char c - 48)) 0 s"

text \<open>The digits of a time stamp read as one number (year, month, day, hour, minute,
  second in this order), which grows with time.\<close>

definition stamp_number :: "string \<Rightarrow> nat" where
  "stamp_number t = digits_value (filter is_digit t)"

section \<open>Partitioner: proofs\<close>

lemma blocks_Nil [simp]: "blocks n [] = []"
  by (simp add: blocks.simps)

lemma blocks_step: "0 < n \<Longrightarrow> xs \<noteq> [] \<Longrightarrow> blocks n xs = take n xs # blocks n (drop n xs)"
  by (subst blocks.simps) simp

lemma concat_blocks: "0 < n \<Longrightarrow> concat (blocks n xs) = xs"
proof (induction n xs rule: blocks.induct)
  case (1 n xs)
  show ?case
  proof (cases "xs = []")
    case True
    then show ?thesis by simp
  next
    case False
    with 1 show ?thesis by (simp add: blocks_step)
  qed
qed

lemma div_one_more: "0 < (n::nat) \<Longrightarrow> (m + n) div n = Suc (m div n)"
  by (simp add: div_add_self2)

lemma length_blocks: "0 < n \<Longrightarrow> length (blocks n xs) = (length xs + n - 1) div n"
proof (induction n xs rule: blocks.induct)
  case (1 n xs)
  show ?case
  proof (cases "xs = []")
    case True
    with 1 show ?thesis by simp
  next
    case False
    have ih: "length (blocks n (drop n xs)) = (length xs - n + n - 1) div n"
      using 1 False by simp
    show ?thesis
    proof (cases "length xs \<le> n")
      case True
      then have d: "drop n xs = []" by simp
      have "0 < length xs" using False by simp
      then have "n \<le> length xs + n - 1" "length xs + n - 1 < 2 * n"
        using True 1(2) by linarith+
      then have "(length xs + n - 1) div n = 1"
        by (intro div_nat_eqI) simp_all
      then show ?thesis using False 1(2) d by (simp add: blocks_step)
    next
      case gt: False
      then have e: "length xs + n - 1 = (length xs - 1) + n" "length xs - n + n - 1 = length xs - 1"
        using 1(2) by linarith+
      have "length (blocks n xs) = Suc (length (blocks n (drop n xs)))"
        using False 1(2) by (simp add: blocks_step)
      also have "\<dots> = Suc ((length xs - 1) div n)" using ih e by (simp only:)
      also have "\<dots> = (length xs + n - 1) div n" using 1(2) e(1) div_one_more[of n "length xs - 1"] by (simp only:)
      finally show ?thesis .
    qed
  qed
qed

lemma nth_blocks:
  "0 < n \<Longrightarrow> k < length (blocks n xs) \<Longrightarrow> blocks n xs ! k = take n (drop (k * n) xs)"
proof (induction n xs arbitrary: k rule: blocks.induct)
  case (1 n xs)
  from "1.prems" have ne: "xs \<noteq> []" by auto
  have st: "blocks n xs = take n xs # blocks n (drop n xs)"
    using ne "1.prems" by (simp add: blocks_step)
  show ?case
  proof (cases k)
    case 0
    then show ?thesis by (simp add: st)
  next
    case (Suc j)
    with "1.prems" st have "j < length (blocks n (drop n xs))"
      by simp
    with "1.IH" "1.prems" ne have "blocks n (drop n xs) ! j = take n (drop (j * n) (drop n xs))"
      by simp
    then show ?thesis using Suc by (simp add: st add.commute)
  qed
qed


lemma blocks_nonempty: "0 < n \<Longrightarrow> ys \<in> set (blocks n xs) \<Longrightarrow> ys \<noteq> []"
proof (induction n xs rule: blocks.induct)
  case (1 n xs)
  then show ?case
    by (cases "xs = []") (auto simp: blocks_step)
qed

lemma js_slice_forward:
  "0 \<le> i \<Longrightarrow> 0 \<le> q \<Longrightarrow> js_slice xs i (i + q) = take (nat q) (drop (nat i) xs)"
  by (auto simp: js_slice_def Let_def min_def take_all_iff)

lemma chunkUrls_loop_blocks:
  assumes "1 \<le> q" "0 \<le> i"
  shows "chunkUrls_loop urls q i chunks = Some (chunks @ blocks (nat q) (drop (nat i) urls))"
  using assms(2)
proof (induction "length urls - nat i" arbitrary: i chunks rule: less_induct)
  case less
  show ?case
  proof (cases "i < int (length urls)")
    case False
    then have "drop (nat i) urls = []" using less.prems by simp
    with False show ?thesis by (subst chunkUrls_loop.simps) simp
  next
    case True
    have ne: "drop (nat i) urls \<noteq> []" using True less.prems by simp
    have m: "length urls - nat (i + q) < length urls - nat i"
      using True less.prems assms(1) by linarith
    have d: "drop (nat (i + q)) urls = drop (nat q) (drop (nat i) urls)"
      using less.prems assms(1) by (simp add: nat_add_distrib add.commute)
    have "chunkUrls_loop urls q i chunks =
        chunkUrls_loop urls q (i + q) (chunks @ [js_slice urls i (i + q)])"
      using True by (subst chunkUrls_loop.simps) simp
    also have "\<dots> = Some ((chunks @ [js_slice urls i (i + q)]) @ blocks (nat q) (drop (nat (i + q)) urls))"
      using less.hyps[OF m] less.prems assms(1) by simp
    also have "\<dots> = Some (chunks @ blocks (nat q) (drop (nat i) urls))"
      using ne assms(1) less.prems by (simp add: blocks_step[of "nat q" "drop (nat i) urls"] d js_slice_forward)
    finally show ?thesis .
  qed
qed

lemma chunkUrls_blocks: "1 \<le> q \<Longrightarrow> chunkUrls urls q = Some (blocks (nat q) urls)"
  by (simp add: chunkUrls_def chunkUrls_loop_blocks)

lemma chunkUrls_loop_diverges:
  assumes "chunkUrls_loop urls q i chunks = Some r"
  shows "\<not> (q \<le> 0 \<and> i < int (length urls))"
proof (rule chunkUrls_loop.raw_induct
        [where P = "\<lambda>urls q i chunks r. \<not> (q \<le> 0 \<and> i < int (length urls))", OF _ assms],
       goal_cases)
  case (1 f u c j ch y)
  show ?case
  proof
    assume a: "c \<le> 0 \<and> j < int (length u)"
    then have "f u c (j + c) (ch @ [js_slice u j (j + c)]) = Some y"
      using 1(2) by simp
    from 1(1)[OF this] a show False by linarith
  qed
qed

lemma chunkUrls_diverges: "q \<le> 0 \<Longrightarrow> urls \<noteq> [] \<Longrightarrow> chunkUrls urls q = None"
  using chunkUrls_loop_diverges[of urls q 0 "[]"] by (cases "chunkUrls urls q") (auto simp: chunkUrls_def)

lemma page_url_eq:
  "page_url p = ''https://myip.ms/browse/sites/'' @ number_toString p @
                ''/rankii/15000000/ipID/23.227.38.0/ipIDii/23.227.38.255''"
  by (simp add: page_url_def BASE_URL_def)


lemma drop_upto: "0 \<le> a \<Longrightarrow> drop (nat a) [l .. u] = [l + a .. u]"
  by (rule nth_equalityI) (auto simp: nth_upto)

lemma take_upto:
  assumes "0 \<le> b"
  shows "take (nat b) [l .. u] = [l .. min (l + b - 1) u]"
proof (rule nth_equalityI)
  show "length (take (nat b) [l .. u]) = length [l .. min (l + b - 1) u]"
    using assms by (auto simp: min_def)
next
  fix i
  assume "i < length (take (nat b) [l .. u])"
  then have "i < nat b" "i < nat (u - l + 1)"
    by simp_all
  then have i: "int i < b" "l + int i \<le> u"
    by linarith+
  then have "l + int i \<le> min (l + b - 1) u" by simp
  then have "[l .. min (l + b - 1) u] ! i = l + int i" by (rule nth_upto)
  moreover have "take (nat b) [l .. u] ! i = l + int i"
    using i by (simp add: nth_upto)
  ultimately show "take (nat b) [l .. u] ! i = [l .. min (l + b - 1) u] ! i" by simp
qed

lemma take_drop_upto:
  assumes "1 \<le> q"
  shows "take (nat q) (drop (k * nat q) [1 .. n]) = [int k * q + 1 .. min ((int k + 1) * q) n]"
proof -
  have "k * nat q = nat (int k * q)"
    using assms by (simp add: nat_mult_distrib)
  then have "take (nat q) (drop (k * nat q) [1 .. n]) = take (nat q) [1 + int k * q .. n]"
    using assms by (simp add: drop_upto)
  also have "\<dots> = [1 + int k * q .. min (1 + int k * q + q - 1) n]"
    using assms by (simp add: take_upto)
  also have "1 + int k * q + q - 1 = (int k + 1) * q"
    by (simp add: algebra_simps)
  finally show ?thesis by (simp add: add.commute)
qed

text \<open>
  Claim C1. For every \<open>totalPages \<ge> 1\<close> and \<open>quota \<ge> 1\<close> the partitioner returns a list of
  chunks whose lengths sum to \<open>totalPages\<close>; every chunk but the last has exactly \<open>quota\<close>
  URLs (the last one is non-empty and has at most \<open>quota\<close>); and the chunks follow the
  global URL order: the chunk at position \<open>k\<close> (counted from 0) holds the URLs of the pages
  \<open>k * quota + 1 .. min ((k + 1) * quota) totalPages\<close>, so that their concatenation is the
  generated URL list.
\<close>

theorem partition_chunks:
  assumes "1 \<le> totalPages" and "1 \<le> quota"
  shows "\<exists>chunks. partition totalPages quota = Some chunks
           \<and> sum_list (map length chunks) = nat totalPages
           \<and> (\<forall>k. Suc k < length chunks \<longrightarrow> length (chunks ! k) = nat quota)
           \<and> chunks \<noteq> [] \<and> last chunks \<noteq> [] \<and> length (last chunks) \<le> nat quota
           \<and> length chunks = (nat totalPages + nat quota - 1) div nat quota
           \<and> concat chunks = generateUrlList totalPages
           \<and> (\<forall>k. k < length chunks \<longrightarrow>
                 chunks ! k = map page_url [int k * quota + 1 .. min ((int k + 1) * quota) totalPages])"
proof -
  let ?urls = "generateUrlList totalPages"
  let ?q = "nat quota"
  let ?cs = "blocks ?q ?urls"
  have q: "0 < ?q" using assms(2) by simp
  have len: "length ?urls = nat totalPages"
    by (simp add: generateUrlList_def)
  have ne: "?urls \<noteq> []" using len assms(1) by auto
  have p: "partition totalPages quota = Some ?cs"
    using assms(2) by (simp add: partition_def chunkUrls_blocks)
  have c: "concat ?cs = ?urls" using q by (rule concat_blocks)
  have s: "sum_list (map length ?cs) = nat totalPages"
    using c len by (metis length_concat)
  have n: "length ?cs = (nat totalPages + ?q - 1) div ?q"
    using q len by (simp add: length_blocks)
  have nth: "?cs ! k = take ?q (drop (k * ?q) ?urls)" if "k < length ?cs" for k
    using q that by (rule nth_blocks)
  have full: "length (?cs ! k) = ?q" if "Suc k < length ?cs" for k
  proof -
    have "Suc k < (nat totalPages + ?q - 1) div ?q" using that n by simp
    then have "Suc (Suc k) \<le> (nat totalPages + ?q - 1) div ?q" by simp
    then have "Suc (Suc k) * ?q \<le> nat totalPages + ?q - 1"
      using q by (simp only: less_eq_div_iff_mult_less_eq)
    then have "k * ?q + ?q \<le> nat totalPages" using q by simp
    then show ?thesis using nth[of k] that len by simp
  qed
  have cne: "?cs \<noteq> []" using ne q by (simp add: blocks_step)
  have lne: "last ?cs \<noteq> []" using blocks_nonempty[OF q] cne last_in_set by blast
  have lle: "length (last ?cs) \<le> ?q"
    using cne nth[of "length ?cs - 1"] by (simp add: last_conv_nth)
  have urls: "?cs ! k = map page_url [int k * quota + 1 .. min ((int k + 1) * quota) totalPages]"
    if "k < length ?cs" for k
    using nth[OF that] take_drop_upto[OF assms(2), of k totalPages]
    by (simp add: generateUrlList_def take_map drop_map)
  show ?thesis
    using p s full cne lne lle n c urls by blast
qed

theorem partition_chunks_witness:
  "\<exists>chunks. partition 5 2 = Some chunks \<and> length chunks = 3 \<and> sum_list (map length chunks) = 5
      \<and> chunks ! 0 = [page_url 1, page_url 2] \<and> chunks ! 1 = [page_url 3, page_url 4]
      \<and> chunks ! 2 = [page_url 5]"
proof -
  obtain chunks where c: "partition 5 2 = Some chunks" "sum_list (map length chunks) = nat 5"
      "length chunks = (nat 5 + nat 2 - 1) div nat 2"
      "\<forall>k. k < length chunks \<longrightarrow>
                 chunks ! k = map page_url [int k * 2 + 1 .. min ((int k + 1) * 2) 5]"
    using partition_chunks[of 5 2] by auto
  have l: "length chunks = 3" using c(3) by simp
  have "chunks ! 0 = map page_url [int 0 * 2 + 1 .. min ((int 0 + 1) * 2) 5]"
       "chunks ! 1 = map page_url [int 1 * 2 + 1 .. min ((int 1 + 1) * 2) 5]"
       "chunks ! 2 = map page_url [int 2 * 2 + 1 .. min ((int 2 + 1) * 2) 5]"
    using c(4) l by simp_all
  then have "chunks ! 0 = [page_url 1, page_url 2]" "chunks ! 1 = [page_url 3, page_url 4]"
       "chunks ! 2 = [page_url 5]"
    by (simp_all add: upto.simps)
  with c l show ?thesis by simp
qed

lemma generateUrlList_empty: "totalPages < 1 \<Longrightarrow> generateUrlList totalPages = []"
  by (simp add: generateUrlList_def)

lemma chunkUrls_Nil: "chunkUrls [] chunkSize = Some []"
  unfolding chunkUrls_def by (subst chunkUrls_loop.simps) simp

lemma generateUrlList_nonempty: "1 \<le> totalPages \<Longrightarrow> generateUrlList totalPages \<noteq> []"
  by (simp add: generateUrlList_def)

text \<open>
  Claim C6, as amended. The partitioner has no check of its parameters and no
  \<open>InvalidConfiguration\<close> failure. With \<open>totalPages < 1\<close> it returns the empty list of chunks,
  whatever the quota; with \<open>totalPages \<ge> 1\<close> and \<open>quota < 1\<close> the loop of \<^verbatim>\<open>chunkUrls\<close> never
  returns.
\<close>

theorem partition_without_validation:
  "(totalPages < 1 \<longrightarrow> partition totalPages quota = Some []) \<and>
   (1 \<le> totalPages \<and> quota < 1 \<longrightarrow> partition totalPages quota = None)"
proof (intro conjI impI)
  assume "totalPages < 1"
  then show "partition totalPages quota = Some []"
    by (simp add: partition_def generateUrlList_empty chunkUrls_Nil)
next
  assume a: "1 \<le> totalPages \<and> quota < 1"
  then have "generateUrlList totalPages \<noteq> []" by (simp add: generateUrlList_nonempty)
  moreover have "quota \<le> 0" using a by simp
  ultimately show "partition totalPages quota = None"
    unfolding partition_def by (intro chunkUrls_diverges)
qed

theorem partition_without_validation_witness:
  "partition (- 2) 7 = Some [] \<and> partition 10 (- 1) = None"
  using partition_without_validation[of "- 2" 7] partition_without_validation[of 10 "- 1"]
  by simp

text \<open>
  Claim C6 as stated fails: for \<open>totalPages = 0\<close> the partitioner returns normally with
  no chunks, and for \<open>quota = 0\<close> it does not return at all.
\<close>

theorem partition_invalid_counterexample:
  "partition 0 50 = Some [] \<and> partition 3 0 = None"
proof
  have "generateUrlList 0 = []" by (simp add: generateUrlList_def)
  then show "partition 0 50 = Some []"
    unfolding partition_def chunkUrls_def by (subst chunkUrls_loop.simps) simp
next
  have "generateUrlList 3 \<noteq> []" by (simp add: generateUrlList_def upto.simps)
  then show "partition 3 0 = None"
    unfolding partition_def by (intro chunkUrls_diverges) simp_all
qed
section \<open>Extraction: proofs\<close>

lemma trim_empty_iff: "trim s = [] \<longleftrightarrow> (\<forall>c\<in>set s. is_space c)"
proof
  assume "trim s = []"
  then have a: "\<forall>c\<in>set (dropWhile is_space s). is_space c"
    by (simp add: trim_def)
  have "dropWhile is_space s = []"
  proof (rule ccontr)
    assume ne: "dropWhile is_space s \<noteq> []"
    then have "\<not> is_space (hd (dropWhile is_space s))" by (rule hd_dropWhile)
    moreover have "hd (dropWhile is_space s) \<in> set (dropWhile is_space s)"
      using ne by (rule hd_in_set)
    ultimately show False using a by blast
  qed
  then show "\<forall>c\<in>set s. is_space c"
    by (simp only: dropWhile_eq_Nil_conv)
next
  assume "\<forall>c\<in>set s. is_space c"
  then show "trim s = []"
    by (auto simp: trim_def dest: set_dropWhileD)
qed

lemma trim_part_empty:
  assumes "trim (a @ b @ c) = []"
  shows "trim b = []"
  using assms by (simp add: trim_empty_iff)

lemma cell_link_fallback_dead:
  assumes "cell_text cells k = Some []"
  shows "js_or (map_option (\<lambda>a. trim (a_text a)) (cell_link cells k)) [] = []"
proof (cases "cell_link cells k")
  case None
  then show ?thesis by simp
next
  case (Some a)
  then have k: "k < length cells" "first_anchor (cells ! k) = Some a"
    by (auto simp: cell_link_def split: if_splits)
  with assms have "trim (textContent (cells ! k)) = []"
    by (simp add: cell_text_def)
  then have "trim (a_text a) = []"
    using k(2) by (simp add: textContent_def trim_part_empty)
  with Some show ?thesis by simp
qed

lemma cell_link_undefined: "cell_text cells k = None \<Longrightarrow> cell_link cells k = None"
  by (simp add: cell_text_def cell_link_def split: if_splits)

lemma text_with_fallback:
  "js_or (cell_text cells k) (js_or (map_option (\<lambda>a. trim (a_text a)) (cell_link cells k)) [])
     = js_or (cell_text cells k) []"
proof (cases "cell_text cells k")
  case None
  then show ?thesis by (simp add: cell_link_undefined)
next
  case (Some s)
  then show ?thesis by (cases "s = []") (simp_all add: cell_link_fallback_dead)
qed

lemma domain_extract_row: "domain (extract_row href now index cells) = js_or (cell_text cells 1) []"
  by (simp add: extract_row_def Let_def text_with_fallback)

lemma ipAddress_extract_row: "ipAddress (extract_row href now index cells) = js_or (cell_text cells 2) []"
  by (simp add: extract_row_def Let_def text_with_fallback)

lemma uniqueId_extract_row:
  "uniqueId (extract_row href now index cells) =
     replace_ws (rank (extract_row href now index cells) @ ''-'' @ domain (extract_row href now index cells))"
  by (simp add: extract_row_def Let_def text_with_fallback)

lemma replace_ws_no_space: "c \<in> set (replace_ws s) \<Longrightarrow> \<not> is_space c"
proof (induction s arbitrary: c rule: replace_ws.induct)
  case 1
  then show ?case by simp
next
  case (2 d ds)
  show ?case
  proof (cases "is_space d")
    case True
    with 2 have "c = CHR ''-'' \<or> c \<in> set (replace_ws (dropWhile is_space ds))" by simp
    then show ?thesis
    proof
      assume "c = CHR ''-''"
      then show ?thesis by (simp add: is_space_def)
    next
      assume "c \<in> set (replace_ws (dropWhile is_space ds))"
      then show ?thesis using True by (rule "2.IH"(1)[rotated])
    qed
  next
    case False
    with 2 have "c = d \<or> c \<in> set (replace_ws ds)" by simp
    then show ?thesis
    proof
      assume "c = d"
      then show ?thesis using False by simp
    next
      assume "c \<in> set (replace_ws ds)"
      then show ?thesis using False by (rule "2.IH"(2)[rotated])
    qed
  qed
qed

lemma replace_ws_id: "\<forall>c\<in>set s. \<not> is_space c \<Longrightarrow> replace_ws s = s"
  by (induction s) simp_all


lemma replace_ws_fixed_iff: "replace_ws s = s \<longleftrightarrow> (\<forall>c\<in>set s. \<not> is_space c)"
proof
  assume "replace_ws s = s"
  then have "set (replace_ws s) = set s" by simp
  then show "\<forall>c\<in>set s. \<not> is_space c" using replace_ws_no_space by blast
next
  assume "\<forall>c\<in>set s. \<not> is_space c"
  then show "replace_ws s = s" by (rule replace_ws_id)
qed

lemma dropWhile_run:
  assumes "\<forall>c\<in>set ws. P c" and "b = [] \<or> \<not> P (hd b)"
  shows "dropWhile P (ws @ b) = b"
proof -
  have "dropWhile P (ws @ b) = dropWhile P b"
    using assms(1) by (simp add: dropWhile_append)
  also have "\<dots> = b" using assms(2) by (cases b) auto
  finally show ?thesis .
qed

lemma replace_ws_run:
  assumes "\<forall>c\<in>set a. \<not> is_space c" and "ws \<noteq> []" and "\<forall>c\<in>set ws. is_space c"
    and "b = [] \<or> \<not> is_space (hd b)"
  shows "replace_ws (a @ ws @ b) = a @ ''-'' @ replace_ws b"
  using assms(1)
proof (induction a)
  case Nil
  obtain w ws' where ws: "ws = w # ws'" using assms(2) by (cases ws) auto
  then have "\<forall>c\<in>set ws'. is_space c" "is_space w" using assms(3) by simp_all
  then show ?case using ws dropWhile_run[of ws' is_space b] assms(4) by simp
next
  case (Cons x a)
  then show ?case by simp
qed

text \<open>
  Claim C4. The \<open>uniqueId\<close> of an extracted row is its rank, a hyphen and its domain, with every
  run of white space replaced by one hyphen, so it contains no white space; for rank
  \<open>12\<close> and domain \<open>example.com\<close> it is \<open>12-example.com\<close>. The last two conjuncts say what
  the replacement does: a text without white space is unchanged, and a white-space run
  between a text without white space and a rest that does not start with white space
  becomes a single hyphen.
\<close>

theorem uniqueId_collapses_whitespace:
  "uniqueId (extract_row href now index cells) =
       replace_ws (rank (extract_row href now index cells) @ ''-'' @
                   domain (extract_row href now index cells))
   \<and> (\<forall>c\<in>set (uniqueId (extract_row href now index cells)). \<not> is_space c)
   \<and> (rank (extract_row href now index cells) = ''12'' \<and>
      domain (extract_row href now index cells) = ''example.com''
      \<longrightarrow> uniqueId (extract_row href now index cells) = ''12-example.com'')
   \<and> ((\<forall>c\<in>set s. \<not> is_space c) \<longrightarrow> replace_ws s = s)
   \<and> ((\<forall>c\<in>set a. \<not> is_space c) \<and> ws \<noteq> [] \<and> (\<forall>c\<in>set ws. is_space c) \<and>
      (b = [] \<or> \<not> is_space (hd b))
      \<longrightarrow> replace_ws (a @ ws @ b) = a @ ''-'' @ replace_ws b)"
proof (intro conjI)
  let ?r = "extract_row href now index cells"
  show u: "uniqueId ?r = replace_ws (rank ?r @ ''-'' @ domain ?r)"
    by (rule uniqueId_extract_row)
  show "\<forall>c\<in>set (uniqueId ?r). \<not> is_space c"
    using replace_ws_no_space by (simp only: u) blast
  show "rank ?r = ''12'' \<and> domain ?r = ''example.com'' \<longrightarrow> uniqueId ?r = ''12-example.com''"
  proof
    assume "rank ?r = ''12'' \<and> domain ?r = ''example.com''"
    then have "uniqueId ?r = replace_ws ''12-example.com''" by (simp only: u) simp
    also have "\<dots> = ''12-example.com''" by (rule replace_ws_id) (simp add: is_space_def)
    finally show "uniqueId ?r = ''12-example.com''" .
  qed
  show "(\<forall>c\<in>set s. \<not> is_space c) \<longrightarrow> replace_ws s = s"
    by (simp add: replace_ws_id)
  show "(\<forall>c\<in>set a. \<not> is_space c) \<and> ws \<noteq> [] \<and> (\<forall>c\<in>set ws. is_space c) \<and>
      (b = [] \<or> \<not> is_space (hd b))
      \<longrightarrow> replace_ws (a @ ws @ b) = a @ ''-'' @ replace_ws b"
    using replace_ws_run[of a ws b] by blast
qed

theorem uniqueId_collapses_whitespace_witness:
  "uniqueId (extract_row ''https://myip.ms/browse/sites/1'' ''2024-01-01T00:00:00.000Z'' 0
      [\<lparr>text_before = '' 12 '', first_anchor = None, text_after = []\<rparr>,
       \<lparr>text_before = [],
        first_anchor = Some \<lparr>a_text = ''example.com'', a_href = ''https://myip.ms/info/whois/example.com''\<rparr>,
        text_after = '' ''\<rparr>,
       \<lparr>text_before = ''23.227.38.32'', first_anchor = None, text_after = []\<rparr>])
     = ''12-example.com''
   \<and> replace_ws ''row 7-foo  bar'' = ''row-7-foo-bar''"
proof
  let ?cells = "[\<lparr>text_before = '' 12 '', first_anchor = None, text_after = []\<rparr>,
       \<lparr>text_before = [],
        first_anchor = Some \<lparr>a_text = ''example.com'', a_href = ''https://myip.ms/info/whois/example.com''\<rparr>,
        text_after = '' ''\<rparr>,
       \<lparr>text_before = ''23.227.38.32'', first_anchor = None, text_after = []\<rparr>]"
  let ?r = "extract_row ''https://myip.ms/browse/sites/1'' ''2024-01-01T00:00:00.000Z'' 0 ?cells"
  have "rank ?r = ''12''"
    by (simp add: extract_row_def Let_def cell_text_def textContent_def trim_def is_space_def)
  moreover have "domain ?r = ''example.com''"
    by (simp add: extract_row_def Let_def cell_text_def textContent_def trim_def is_space_def)
  ultimately show "uniqueId ?r = ''12-example.com''"
    using uniqueId_collapses_whitespace
      [of "''https://myip.ms/browse/sites/1''" "''2024-01-01T00:00:00.000Z''" 0 ?cells]
    by blast
next
  have "replace_ws (''row'' @ '' '' @ ''7-foo  bar'') = ''row'' @ ''-'' @ replace_ws ''7-foo  bar''"
    using uniqueId_collapses_whitespace [of _ _ _ _ _ "''row''" "'' ''" "''7-foo  bar''"]
    by (simp add: is_space_def)
  then show "replace_ws ''row 7-foo  bar'' = ''row-7-foo-bar''"
    by (simp add: is_space_def)
qed

lemma extract_table_member:
  assumes "sites_tbl doc = Some rows" and "index < length (drop 1 rows)"
  shows "extract_row (location_href doc) (now index) index (drop 1 rows ! index) \<in> set (extract_table now doc)
         \<longleftrightarrow> domain (extract_row (location_href doc) (now index) index (drop 1 rows ! index)) \<noteq> []
              \<or> ipAddress (extract_row (location_href doc) (now index) index (drop 1 rows ! index)) \<noteq> []"
proof -
  let ?f = "\<lambda>(index, cells). extract_row (location_href doc) (now index) index cells"
  let ?xs = "enumerate 0 (drop 1 rows)"
  let ?r = "extract_row (location_href doc) (now index) index (drop 1 rows ! index)"
  have "(index, drop 1 rows ! index) \<in> set ?xs"
    using assms(2) by (simp add: in_set_enumerate_eq)
  then have "?f (index, drop 1 rows ! index) \<in> ?f ` set ?xs" by (rule imageI)
  then have "?r \<in> set (map ?f ?xs)" by simp
  then show ?thesis using assms(1) by (simp add: extract_table_def)
qed

lemma extract_table_valid:
  "r \<in> set (extract_table now doc) \<Longrightarrow> domain r \<noteq> [] \<or> ipAddress r \<noteq> []"
  by (auto simp: extract_table_def split: option.splits)
section \<open>One page and the loop over a chunk: proofs\<close>

lemma scrapePage_cases:
  "scrapePage now v =
     (case scrapePage_try now v of
        Throws Thrown_null \<Rightarrow> Throws (type_error ''null'')
      | Throws Thrown_undefined \<Rightarrow> Throws (type_error ''undefined'')
      | Throws (Has_message m) \<Rightarrow> Returns None
      | Returns data \<Rightarrow> Returns data)"
  by (simp add: scrapePage_def split: outcome.splits thrown.splits)

lemma scrapePage_returns_iff:
  "(\<exists>data. scrapePage now v = Returns data) \<longleftrightarrow>
     scrapePage_try now v \<noteq> Throws Thrown_null \<and> scrapePage_try now v \<noteq> Throws Thrown_undefined"
  by (auto simp: scrapePage_def split: outcome.splits thrown.splits)

lemma scrapePage_try_valid:
  "scrapePage_try now v = Returns (Some rows) \<Longrightarrow> r \<in> set rows \<Longrightarrow> domain r \<noteq> [] \<or> ipAddress r \<noteq> []"
  by (auto simp: scrapePage_try_def Let_def split: outcome.splits if_splits dest: extract_table_valid)

lemma scrapePage_valid:
  "scrapePage now v = Returns (Some rows) \<Longrightarrow> r \<in> set rows \<Longrightarrow> domain r \<noteq> [] \<or> ipAddress r \<noteq> []"
  using scrapePage_try_valid[of now v rows r]
  by (auto simp: scrapePage_def split: outcome.splits thrown.splits)

lemma page_call:
  "\<not> page_escapes browser clock urls i \<Longrightarrow>
   scrapePage (clock i) (browser i (urls ! i)) = Returns (page_data browser clock urls i)"
  by (simp add: page_escapes_def page_data_def split: outcome.splits)

lemma scrape_loop_fold:
  "\<forall>j. i \<le> j \<and> j < length urls \<longrightarrow> \<not> page_escapes browser clock urls j \<Longrightarrow>
   scrape_loop browser clock urls i st =
     Returns (foldl (\<lambda>s j. count_page (page_data browser clock urls j) s) st [i ..< length urls])"
proof (induction browser clock urls i st rule: scrape_loop.induct)
  case (1 browser clock urls i st)
  show ?case
  proof (cases "i < length urls")
    case False
    then show ?thesis by (subst scrape_loop.simps) simp
  next
    case True
    have "\<not> page_escapes browser clock urls i" using True "1.prems" by simp
    then have r: "scrapePage (clock i) (browser i (urls ! i)) = Returns (page_data browser clock urls i)"
      by (rule page_call)
    have later: "\<forall>j. Suc i \<le> j \<and> j < length urls \<longrightarrow> \<not> page_escapes browser clock urls j"
      using "1.prems" by simp
    have "scrape_loop browser clock urls i st =
          scrape_loop browser clock urls (Suc i) (count_page (page_data browser clock urls i) st)"
      using True r by (subst scrape_loop.simps) simp
    also have "\<dots> = Returns (foldl (\<lambda>s j. count_page (page_data browser clock urls j) s)
                  (count_page (page_data browser clock urls i) st) [Suc i ..< length urls])"
      using True r later by (rule "1.IH")
    finally show ?thesis using True by (simp add: upt_conv_Cons)
  qed
qed

lemma scrape_loop_no_escape:
  "scrape_loop browser clock urls i st = Returns st' \<Longrightarrow> i \<le> j \<Longrightarrow> j < length urls \<Longrightarrow>
   \<not> page_escapes browser clock urls j"
proof (induction browser clock urls i st rule: scrape_loop.induct)
  case (1 browser clock urls i st)
  have lt: "i < length urls" using "1.prems"(2,3) by simp
  show ?case
  proof (cases "scrapePage (clock i) (browser i (urls ! i))")
    case (Throws e)
    then have "scrape_loop browser clock urls i st = Throws e"
      using lt by (subst scrape_loop.simps) simp
    then show ?thesis using "1.prems"(1) by simp
  next
    case (Returns data)
    then have now: "\<not> page_escapes browser clock urls i" by (simp add: page_escapes_def)
    have "scrape_loop browser clock urls i st =
          scrape_loop browser clock urls (Suc i) (count_page data st)"
      using lt Returns by (subst scrape_loop.simps) simp
    then have next_run: "scrape_loop browser clock urls (Suc i) (count_page data st) = Returns st'"
      using "1.prems"(1) by simp
    show ?thesis
    proof (cases "j = i")
      case True
      then show ?thesis using now by simp
    next
      case False
      then have "Suc i \<le> j" using "1.prems"(2) by simp
      with lt Returns next_run show ?thesis using "1.prems"(3) by (rule "1.IH")
    qed
  qed
qed

lemma scrape_loop_escape:
  assumes "j < length urls" and "page_escapes browser clock urls j"
  shows "\<exists>e. scrape_loop browser clock urls 0 st = Throws e"
proof (cases "scrape_loop browser clock urls 0 st")
  case (Throws e)
  then show ?thesis by blast
next
  case (Returns st')
  then have "\<not> page_escapes browser clock urls j"
    using assms(1) by (intro scrape_loop_no_escape[where i = 0]) simp_all
  then show ?thesis using assms(2) by simp
qed

lemma count_page_fields:
  "successCount (count_page data st) =
     successCount st + (case data of Some rows \<Rightarrow> if rows \<noteq> [] then 1 else 0 | None \<Rightarrow> 0)"
  "failCount (count_page data st) =
     failCount st + (case data of Some rows \<Rightarrow> if rows \<noteq> [] then 0 else 1 | None \<Rightarrow> 1)"
  "allData (count_page data st) = allData st @ (case data of Some rows \<Rightarrow> rows | None \<Rightarrow> [])"
  by (simp_all add: count_page_def split: option.splits)

lemma count_page_page:
  "successCount (count_page (page_data browser clock urls j) st) =
     successCount st + (if page_succeeded browser clock urls j then 1 else 0)"
  "failCount (count_page (page_data browser clock urls j) st) =
     failCount st + (if page_succeeded browser clock urls j then 0 else 1)"
  "allData (count_page (page_data browser clock urls j) st) =
     allData st @ page_rows browser clock urls j"
  by (simp_all add: count_page_fields page_succeeded_def page_rows_def split: option.splits)

lemma fold_counts:
  "successCount (foldl (\<lambda>s j. count_page (page_data browser clock urls j) s) st js) =
     successCount st + length (filter (page_succeeded browser clock urls) js)
   \<and> failCount (foldl (\<lambda>s j. count_page (page_data browser clock urls j) s) st js) =
     failCount st + length (filter (\<lambda>j. \<not> page_succeeded browser clock urls j) js)
   \<and> allData (foldl (\<lambda>s j. count_page (page_data browser clock urls j) s) st js) =
     allData st @ concat (map (page_rows browser clock urls) js)"
proof (induction js arbitrary: st)
  case Nil
  show ?case by simp
next
  case (Cons j js)
  show ?case
    by (simp add: Cons.IH count_page_page)
qed

lemma scrapePage_table_page:
  "scrapePage (example_clock 0) table_page =
     Returns (Some [extract_row ''https://myip.ms/browse/sites/1'' ''2024-01-01T00:00:00.000Z'' 0 full_cells,
                    extract_row ''https://myip.ms/browse/sites/1'' ''2024-01-01T00:00:00.000Z'' 1 ip_only_cells])"
proof -
  have d: "domain (extract_row h n k full_cells) = ''example.com''"
          "domain (extract_row h n k ip_only_cells) = []"
          "ipAddress (extract_row h n k ip_only_cells) = ''23.227.38.33''"
          "domain (extract_row h n k blank_cells) = []"
          "ipAddress (extract_row h n k blank_cells) = []" for h n k
    by (simp_all add: domain_extract_row ipAddress_extract_row cell_text_def full_cells_def
          ip_only_cells_def blank_cells_def text_cell_def link_cell_def textContent_def trim_def
          is_space_def)
  have "extract_table (example_clock 0) table_document =
      [extract_row ''https://myip.ms/browse/sites/1'' ''2024-01-01T00:00:00.000Z'' 0 full_cells,
       extract_row ''https://myip.ms/browse/sites/1'' ''2024-01-01T00:00:00.000Z'' 1 ip_only_cells]"
    by (simp add: extract_table_def table_document_def enumerate_eq_zip upt_rec d example_clock_def)
  then show ?thesis
    by (simp add: scrapePage_def scrapePage_try_def table_page_def Let_def)
qed

lemma scrapePage_header_only_page: "scrapePage now header_only_page = Returns (Some [])"
  by (simp add: scrapePage_def scrapePage_try_def header_only_page_def table_page_def
        extract_table_def header_only_document_def Let_def)

lemma scrapePage_challenge_page: "scrapePage now challenge_page = Returns None"
  by (simp add: scrapePage_def scrapePage_try_def challenge_page_def table_page_def Let_def)

lemma scrapePage_timeout_page: "scrapePage now timeout_page = Returns None"
  by (simp add: scrapePage_def scrapePage_try_def timeout_page_def table_page_def Let_def)

lemma scrape_loop_counts:
  assumes "scrape_loop browser clock urls 0 initial_state = Returns st"
  shows "successCount st = length (filter (page_succeeded browser clock urls) [0 ..< length urls])
     \<and> failCount st = length (filter (\<lambda>i. \<not> page_succeeded browser clock urls i) [0 ..< length urls])
     \<and> allData st = concat (map (page_rows browser clock urls) [0 ..< length urls])"
proof -
  have "\<forall>j. 0 \<le> j \<and> j < length urls \<longrightarrow> \<not> page_escapes browser clock urls j"
    using scrape_loop_no_escape[OF assms] by blast
  then have "scrape_loop browser clock urls 0 initial_state =
      Returns (foldl (\<lambda>s j. count_page (page_data browser clock urls j) s) initial_state
                 [0 ..< length urls])"
    by (rule scrape_loop_fold)
  then have "st = foldl (\<lambda>s j. count_page (page_data browser clock urls j) s) initial_state
                 [0 ..< length urls]"
    using assms by simp
  then show ?thesis
    using fold_counts[of browser clock urls initial_state "[0 ..< length urls]"]
    by (simp add: initial_state_def)
qed

lemma scrape_loop_completes:
  assumes "\<forall>i<length urls. \<not> page_escapes browser clock urls i"
  shows "\<exists>st. scrape_loop browser clock urls 0 initial_state = Returns st"
  using assms scrape_loop_fold[of 0 urls browser clock initial_state] by simp

lemma process_chunk_result:
  assumes "scrape_loop browser clock urls 0 initial_state = Returns st"
  shows "process_chunk browser clock chunkNumber finishedAt save_result urls =
     (if allData st \<noteq> []
      then (case save_result of
              Throws e \<Rightarrow> Throws e
            | Returns u \<Rightarrow> Returns \<lparr>counters = st,
                 written = Some (output_file_name chunkNumber finishedAt, allData st)\<rparr>)
      else Returns \<lparr>counters = st, written = None\<rparr>)"
  using assms by (simp add: process_chunk_def initial_state_def)

lemma caught_failures_stay_in_chunk_runner:
  assumes "\<forall>i<length urls. scrapePage_try (clock i) (browser i (urls ! i)) \<noteq> Throws Thrown_null \<and>
                           scrapePage_try (clock i) (browser i (urls ! i)) \<noteq> Throws Thrown_undefined"
  shows "\<exists>st. scrape_loop browser clock urls 0 initial_state = Returns st
          \<and> failCount st = length (filter (\<lambda>i. \<not> page_succeeded browser clock urls i) [0 ..< length urls])
          \<and> successCount st + failCount st = length urls"
proof -
  have "\<forall>i<length urls. \<not> page_escapes browser clock urls i"
  proof (intro allI impI)
    fix i assume "i < length urls"
    then have "\<exists>data. scrapePage (clock i) (browser i (urls ! i)) = Returns data"
      using assms by (simp only: scrapePage_returns_iff) simp
    then show "\<not> page_escapes browser clock urls i"
      by (auto simp: page_escapes_def)
  qed
  then obtain st where st: "scrape_loop browser clock urls 0 initial_state = Returns st"
    using scrape_loop_completes by blast
  note c = scrape_loop_counts[OF st]
  have "successCount st + failCount st = length [0 ..< length urls]"
    using c by (simp only: sum_length_filter_compl)
  then show ?thesis using st c by auto
qed

lemma challenge_is_caught:
  "goto_result v = Returns () \<and> mouse_move_result v = Returns () \<and> scroll_result v = Returns () \<and>
   title_result v = Returns title \<and>
   (js_includes title ''Verification'' \<or> js_includes title ''CAPTCHA'' \<or> js_includes title ''Bot'' \<or>
    js_includes title ''Security Check'' \<or> js_includes (url_result v) ''verify'')
   \<Longrightarrow> scrapePage now v = Returns None"
  by (auto simp: scrapePage_def scrapePage_try_def Let_def)

text \<open>
  Claim C5 fails on the code when a call of the page driver rejects with \<^verbatim>\<open>undefined\<close> (or
  \<^verbatim>\<open>null\<close>). The \<^verbatim>\<open>catch\<close> clause of \<^verbatim>\<open>scrapePage\<close> reads \<^verbatim>\<open>error.message\<close>, which throws a
  \<^verbatim>\<open>TypeError\<close> for such a value; the exception leaves \<^verbatim>\<open>scrapePage\<close> and the loop: in a chunk
  of three URLs whose second navigation is rejected that way, the third URL is never
  fetched, nothing is counted or written and the run ends with the exception. (Failures
  that carry a message, and pages for which \<^verbatim>\<open>scrapePage\<close> returns \<^verbatim>\<open>null\<close>, stay inside:
  lemmas \<open>caught_failures_stay_in_chunk_runner\<close> and \<open>challenge_is_caught\<close>.)
\<close>

theorem nullish_rejection_leaves_chunk_runner:
  "scrapePage_try (example_clock 1) (rejecting_browser 1 (page_url 2)) = Throws Thrown_undefined
   \<and> scrapePage (example_clock 1) (rejecting_browser 1 (page_url 2)) = Throws (type_error ''undefined'')
   \<and> scrape_loop rejecting_browser example_clock [page_url 1, page_url 2, page_url 3] 0 initial_state
       = Throws (type_error ''undefined'')
   \<and> process_chunk rejecting_browser example_clock ''0001'' ''2024-01-01T00:10:00.000Z'' (Returns ())
        [page_url 1, page_url 2, page_url 3] = Throws (type_error ''undefined'')"
proof (intro conjI)
  let ?urls = "[page_url 1, page_url 2, page_url 3]"
  show t: "scrapePage_try (example_clock 1) (rejecting_browser 1 (page_url 2)) = Throws Thrown_undefined"
    by (simp add: rejecting_browser_def rejecting_page_def table_page_def scrapePage_try_def)
  then show s: "scrapePage (example_clock 1) (rejecting_browser 1 (page_url 2)) = Throws (type_error ''undefined'')"
    by (simp add: scrapePage_def)
  have first: "scrapePage (example_clock 0) (rejecting_browser 0 (page_url 1)) =
      Returns (Some [extract_row ''https://myip.ms/browse/sites/1'' ''2024-01-01T00:00:00.000Z'' 0 full_cells,
                     extract_row ''https://myip.ms/browse/sites/1'' ''2024-01-01T00:00:00.000Z'' 1 ip_only_cells])"
    by (simp add: rejecting_browser_def scrapePage_table_page)
  have second: "scrapePage (example_clock (Suc 0)) (rejecting_browser (Suc 0) (page_url 2)) =
      Throws (type_error ''undefined'')"
    using s by simp
  have "scrape_loop rejecting_browser example_clock ?urls 0 initial_state =
        scrape_loop rejecting_browser example_clock ?urls (Suc 0)
          (count_page (Some [extract_row ''https://myip.ms/browse/sites/1'' ''2024-01-01T00:00:00.000Z'' 0 full_cells,
                     extract_row ''https://myip.ms/browse/sites/1'' ''2024-01-01T00:00:00.000Z'' 1 ip_only_cells])
             initial_state)"
    by (subst scrape_loop.simps) (simp add: first)
  also have "\<dots> = Throws (type_error ''undefined'')"
    by (subst scrape_loop.simps) (simp add: second)
  finally show l: "scrape_loop rejecting_browser example_clock ?urls 0 initial_state
       = Throws (type_error ''undefined'')" .
  then show "process_chunk rejecting_browser example_clock ''0001'' ''2024-01-01T00:10:00.000Z'' (Returns ())
        ?urls = Throws (type_error ''undefined'')"
    by (simp add: process_chunk_def initial_state_def)
qed

lemma returning_pages_do_not_escape:
  "(\<forall>i<length urls. \<exists>data. scrapePage (clock i) (browser i (urls ! i)) = Returns data) \<Longrightarrow>
   \<forall>i<length urls. \<not> page_escapes browser clock urls i"
  by (auto simp: page_escapes_def)

lemma process_chunk_returns:
  assumes "process_chunk browser clock chunkNumber finishedAt save_result urls = Returns run"
  shows "scrape_loop browser clock urls 0 initial_state = Returns (counters run)
       \<and> written run = (if allData (counters run) = [] then None
                        else Some (output_file_name chunkNumber finishedAt, allData (counters run)))"
proof (cases "scrape_loop browser clock urls 0 initial_state")
  case (Throws e)
  then show ?thesis using assms by (simp add: process_chunk_def initial_state_def)
next
  case (Returns st)
  note p = process_chunk_result[OF Returns, of chunkNumber finishedAt save_result]
  from assms have "counters run = st \<and> written run = (if allData st = [] then None
                        else Some (output_file_name chunkNumber finishedAt, allData st))"
    unfolding p by (cases save_result) (auto split: if_splits)
  then show ?thesis using Returns by simp
qed

text \<open>
  Claim C8, as amended. A page counts as a success only when the fetch returns at least
  one row: then its rows are appended to the accumulator and the success counter goes up
  by one. A fetch that returns no rows is counted like a failed fetch: the failure counter
  goes up by one and the accumulator is unchanged. When the loop over the chunk reaches
  its end, the two counters add up to the number of URLs of the chunk and the accumulator
  holds the rows of the pages in chunk order; it reaches its end whenever every call of
  \<^verbatim>\<open>scrapePage\<close> returns.
\<close>

theorem pages_with_rows_count_as_success:
  "(rows \<noteq> [] \<longrightarrow>
      count_page (Some rows) st = st\<lparr>allData := allData st @ rows, successCount := successCount st + 1\<rparr>)
   \<and> count_page (Some []) st = st\<lparr>failCount := failCount st + 1\<rparr>
   \<and> count_page None st = st\<lparr>failCount := failCount st + 1\<rparr>
   \<and> (scrape_loop browser clock urls 0 initial_state = Returns final \<longrightarrow>
          successCount final = length (filter (page_succeeded browser clock urls) [0 ..< length urls])
          \<and> failCount final =
              length (filter (\<lambda>i. \<not> page_succeeded browser clock urls i) [0 ..< length urls])
          \<and> successCount final + failCount final = length urls
          \<and> allData final = concat (map (page_rows browser clock urls) [0 ..< length urls]))
   \<and> ((\<forall>i<length urls. \<exists>data. scrapePage (clock i) (browser i (urls ! i)) = Returns data) \<longrightarrow>
        (\<exists>final. scrape_loop browser clock urls 0 initial_state = Returns final))"
proof (intro conjI)
  show "rows \<noteq> [] \<longrightarrow>
      count_page (Some rows) st = st\<lparr>allData := allData st @ rows, successCount := successCount st + 1\<rparr>"
    by (simp add: count_page_def)
  show "count_page (Some []) st = st\<lparr>failCount := failCount st + 1\<rparr>"
    by (simp add: count_page_def)
  show "count_page None st = st\<lparr>failCount := failCount st + 1\<rparr>"
    by (simp add: count_page_def)
  show "scrape_loop browser clock urls 0 initial_state = Returns final \<longrightarrow>
          successCount final = length (filter (page_succeeded browser clock urls) [0 ..< length urls])
          \<and> failCount final =
              length (filter (\<lambda>i. \<not> page_succeeded browser clock urls i) [0 ..< length urls])
          \<and> successCount final + failCount final = length urls
          \<and> allData final = concat (map (page_rows browser clock urls) [0 ..< length urls])"
  proof
    assume "scrape_loop browser clock urls 0 initial_state = Returns final"
    note c = scrape_loop_counts[OF this]
    have "successCount final + failCount final = length [0 ..< length urls]"
      using c by (simp only: sum_length_filter_compl)
    then show "successCount final = length (filter (page_succeeded browser clock urls) [0 ..< length urls])
          \<and> failCount final =
              length (filter (\<lambda>i. \<not> page_succeeded browser clock urls i) [0 ..< length urls])
          \<and> successCount final + failCount final = length urls
          \<and> allData final = concat (map (page_rows browser clock urls) [0 ..< length urls])"
      using c by simp
  qed
  show "(\<forall>i<length urls. \<exists>data. scrapePage (clock i) (browser i (urls ! i)) = Returns data) \<longrightarrow>
        (\<exists>final. scrape_loop browser clock urls 0 initial_state = Returns final)"
    using returning_pages_do_not_escape[of urls clock browser] scrape_loop_completes[of urls browser clock]
    by blast
qed

lemma mixed_browser_returns:
  "\<exists>data. scrapePage (example_clock i) (mixed_browser i url) = Returns data"
  by (simp add: mixed_browser_def scrapePage_table_page scrapePage_challenge_page
        scrapePage_timeout_page)

lemma header_only_browser_returns:
  "\<exists>data. scrapePage (clock i) (header_only_browser i url) = Returns data"
  by (simp add: header_only_browser_def scrapePage_header_only_page)

lemma failing_browser_fails:
  "scrapePage (clock i) (failing_browser i url) = Returns None"
  by (simp add: failing_browser_def scrapePage_challenge_page scrapePage_timeout_page)

lemma mixed_browser_pages:
  "page_succeeded mixed_browser example_clock urls 0"
  "\<not> page_succeeded mixed_browser example_clock urls (Suc 0)"
  "\<not> page_succeeded mixed_browser example_clock urls (Suc (Suc 0))"
    by (simp_all add: page_succeeded_def page_rows_def page_data_def mixed_browser_def
          scrapePage_table_page scrapePage_challenge_page scrapePage_timeout_page)

lemma header_only_browser_page: "\<not> page_succeeded header_only_browser clock urls i"
  by (simp add: page_succeeded_def page_rows_def page_data_def header_only_browser_def
        scrapePage_header_only_page)

theorem pages_with_rows_count_as_success_witness:
  "(\<exists>final. scrape_loop mixed_browser example_clock [page_url 1, page_url 2, page_url 3] 0 initial_state
             = Returns final
          \<and> successCount final = 1 \<and> failCount final = 2 \<and> length (allData final) = 2)
   \<and> (\<exists>final. scrape_loop header_only_browser example_clock [page_url 2] 0 initial_state
             = Returns final
          \<and> successCount final = 0 \<and> failCount final = 1 \<and> allData final = [])"
proof
  let ?urls = "[page_url 1, page_url 2, page_url 3]"
  note t = pages_with_rows_count_as_success[of _ _ mixed_browser example_clock ?urls]
  obtain final where r: "scrape_loop mixed_browser example_clock ?urls 0 initial_state = Returns final"
    using t mixed_browser_returns by blast
  have f: "successCount final = length (filter (page_succeeded mixed_browser example_clock ?urls) [0 ..< length ?urls])"
    "failCount final = length (filter (\<lambda>i. \<not> page_succeeded mixed_browser example_clock ?urls i)
                       [0 ..< length ?urls])"
    "allData final = concat (map (page_rows mixed_browser example_clock ?urls) [0 ..< length ?urls])"
    using pages_with_rows_count_as_success[of _ _ mixed_browser example_clock ?urls final] r by blast+
  have "successCount final = 1" "failCount final = 2"
    using f(1,2) by (simp_all add: mixed_browser_pages)
  moreover have "length (allData final) = 2"
    using f(3)
    by (simp add: page_rows_def page_data_def mixed_browser_def
          scrapePage_table_page scrapePage_challenge_page scrapePage_timeout_page)
  ultimately show "\<exists>final. scrape_loop mixed_browser example_clock ?urls 0 initial_state = Returns final
          \<and> successCount final = 1 \<and> failCount final = 2 \<and> length (allData final) = 2"
    using r by blast
next
  let ?urls = "[page_url 2]"
  note t = pages_with_rows_count_as_success[of _ _ header_only_browser example_clock ?urls]
  obtain final where r: "scrape_loop header_only_browser example_clock ?urls 0 initial_state = Returns final"
    using t header_only_browser_returns by blast
  have f: "successCount final = length (filter (page_succeeded header_only_browser example_clock ?urls)
                       [0 ..< length ?urls])"
    "failCount final = length (filter (\<lambda>i. \<not> page_succeeded header_only_browser example_clock ?urls i)
                       [0 ..< length ?urls])"
    "allData final = concat (map (page_rows header_only_browser example_clock ?urls) [0 ..< length ?urls])"
    using pages_with_rows_count_as_success[of _ _ header_only_browser example_clock ?urls final] r by blast+
  have "successCount final = 0" "failCount final = 1"
    using f(1,2) by (simp_all add: header_only_browser_page)
  moreover have "allData final = []"
    using f(3) by (simp add: page_rows_def page_data_def header_only_browser_def
          scrapePage_header_only_page)
  ultimately show "\<exists>final. scrape_loop header_only_browser example_clock ?urls 0 initial_state = Returns final
          \<and> successCount final = 0 \<and> failCount final = 1 \<and> allData final = []"
    using r by blast
qed

text \<open>
  Claim C8 as stated fails: a page whose table has only the header row is fetched with
  success and zero rows, and the loop counts it as a failure, not as a success.
\<close>

theorem empty_success_counterexample:
  "scrapePage (example_clock 0) (header_only_browser 0 (page_url 2)) = Returns (Some [])
   \<and> scrape_loop header_only_browser example_clock [page_url 2] 0 initial_state
       = Returns \<lparr>allData = [], successCount = 0, failCount = 1\<rparr>"
proof
  show "scrapePage (example_clock 0) (header_only_browser 0 (page_url 2)) = Returns (Some [])"
    by (simp add: header_only_browser_def scrapePage_header_only_page)
  have "scrape_loop header_only_browser example_clock [page_url 2] 0 initial_state =
        scrape_loop header_only_browser example_clock [page_url 2] (Suc 0)
          (count_page (Some []) initial_state)"
    by (subst scrape_loop.simps) (simp add: header_only_browser_def scrapePage_header_only_page)
  also have "\<dots> = Returns (count_page (Some []) initial_state)"
    by (subst scrape_loop.simps) simp
  also have "count_page (Some []) initial_state = \<lparr>allData = [], successCount = 0, failCount = 1\<rparr>"
    by (simp add: count_page_def initial_state_def)
  finally show "scrape_loop header_only_browser example_clock [page_url 2] 0 initial_state
       = Returns \<lparr>allData = [], successCount = 0, failCount = 1\<rparr>" .
qed

text \<open>
  Claim C7, as amended. The chunk runner writes its file only when at least one row was
  collected (\<^verbatim>\<open>if (allData.length > 0)\<close>): a run that returns has written the accumulated
  rows under the name made of the chunk number and the time stamp when there are rows, and
  has written nothing when there are none. In particular a run in which every call of
  \<^verbatim>\<open>scrapePage\<close> returns \<^verbatim>\<open>null\<close> or no rows returns with every URL counted as failed and
  without a file.
\<close>

theorem file_written_only_with_rows:
  "(process_chunk browser clock chunkNumber finishedAt save_result urls = Returns run \<longrightarrow>
      written run = (if allData (counters run) = [] then None
                     else Some (output_file_name chunkNumber finishedAt, allData (counters run))))
   \<and> ((\<forall>i<length urls. scrapePage (clock i) (browser i (urls ! i)) = Returns None \<or>
                         scrapePage (clock i) (browser i (urls ! i)) = Returns (Some [])) \<longrightarrow>
       process_chunk browser clock chunkNumber finishedAt save_result urls =
         Returns \<lparr>counters = \<lparr>allData = [], successCount = 0, failCount = length urls\<rparr>,
                  written = None\<rparr>)"
proof (intro conjI impI)
  assume "process_chunk browser clock chunkNumber finishedAt save_result urls = Returns run"
  then show "written run = (if allData (counters run) = [] then None
                     else Some (output_file_name chunkNumber finishedAt, allData (counters run)))"
    using process_chunk_returns by blast
next
  assume a: "\<forall>i<length urls. scrapePage (clock i) (browser i (urls ! i)) = Returns None \<or>
                         scrapePage (clock i) (browser i (urls ! i)) = Returns (Some [])"
  then have ne: "\<forall>i<length urls. \<not> page_escapes browser clock urls i"
    by (auto simp: page_escapes_def)
  have ns: "\<forall>i<length urls. \<not> page_succeeded browser clock urls i"
    using a by (auto simp: page_succeeded_def page_rows_def page_data_def)
  obtain st where st: "scrape_loop browser clock urls 0 initial_state = Returns st"
    using scrape_loop_completes[OF ne] by blast
  note c = scrape_loop_counts[OF st]
  note p = process_chunk_result[OF st, of chunkNumber finishedAt save_result]
  have "filter (page_succeeded browser clock urls) [0 ..< length urls] = []"
    using ns by (simp add: filter_empty_conv)
  then have s: "successCount st = 0" using c by simp
  have "filter (\<lambda>i. \<not> page_succeeded browser clock urls i) [0 ..< length urls] = [0 ..< length urls]"
    using ns by (simp add: filter_id_conv)
  then have f: "failCount st = length urls" using c by simp
  have "\<forall>i\<in>set [0 ..< length urls]. page_rows browser clock urls i = []"
    using ns by (simp add: page_succeeded_def)
  then have d: "allData st = []" using c by simp
  have "st = \<lparr>allData = [], successCount = 0, failCount = length urls\<rparr>"
    using s f d by (cases st) simp
  then show "process_chunk browser clock chunkNumber finishedAt save_result urls =
         Returns \<lparr>counters = \<lparr>allData = [], successCount = 0, failCount = length urls\<rparr>,
                  written = None\<rparr>"
    unfolding p by simp
qed

theorem file_written_only_with_rows_witness:
  "(\<exists>run data. process_chunk mixed_browser example_clock ''0001'' ''2024-01-01T00:10:00.000Z'' (Returns ())
               [page_url 1, page_url 2, page_url 3] = Returns run
        \<and> written run = Some (''data_chunk_0001_2024-01-01T00-10-00-000Z.csv'', data) \<and> length data = 2)
   \<and> process_chunk failing_browser example_clock ''0002'' ''2024-01-01T00:20:00.000Z''
        (Throws (Has_message ''EACCES'')) [page_url 51, page_url 52, page_url 53]
       = Returns \<lparr>counters = \<lparr>allData = [], successCount = 0, failCount = 3\<rparr>, written = None\<rparr>"
proof
  let ?urls = "[page_url 1, page_url 2, page_url 3]"
  have "\<forall>i<length ?urls. \<not> page_escapes mixed_browser example_clock ?urls i"
    using mixed_browser_returns by (intro returning_pages_do_not_escape) blast
  then obtain st where st: "scrape_loop mixed_browser example_clock ?urls 0 initial_state = Returns st"
    using scrape_loop_completes by blast
  have "allData st = concat (map (page_rows mixed_browser example_clock ?urls) [0 ..< length ?urls])"
    using scrape_loop_counts[OF st] by simp
  then have l: "length (allData st) = 2"
    by (simp add: page_rows_def page_data_def mixed_browser_def
          scrapePage_table_page scrapePage_challenge_page scrapePage_timeout_page)
  then have ne: "allData st \<noteq> []" by auto
  let ?run = "\<lparr>counters = st,
      written = Some (output_file_name ''0001'' ''2024-01-01T00:10:00.000Z'', allData st)\<rparr>"
  have r: "process_chunk mixed_browser example_clock ''0001'' ''2024-01-01T00:10:00.000Z'' (Returns ())
               ?urls = Returns ?run"
    using process_chunk_result[OF st, of "''0001''" "''2024-01-01T00:10:00.000Z''" "Returns ()"] ne
    by simp
  have "written ?run = (if allData (counters ?run) = [] then None
         else Some (output_file_name ''0001'' ''2024-01-01T00:10:00.000Z'', allData (counters ?run)))"
    using file_written_only_with_rows
      [where browser = mixed_browser and clock = example_clock and chunkNumber = "''0001''"
         and finishedAt = "''2024-01-01T00:10:00.000Z''" and save_result = "Returns ()"
         and urls = ?urls and run = ?run] r
    by blast
  then have "written ?run = Some (''data_chunk_0001_2024-01-01T00-10-00-000Z.csv'', allData st)"
    using ne by (simp add: output_file_name_def)
  with r l show "\<exists>run data. process_chunk mixed_browser example_clock ''0001'' ''2024-01-01T00:10:00.000Z''
               (Returns ()) ?urls = Returns run
        \<and> written run = Some (''data_chunk_0001_2024-01-01T00-10-00-000Z.csv'', data) \<and> length data = 2"
    by blast
next
  show "process_chunk failing_browser example_clock ''0002'' ''2024-01-01T00:20:00.000Z''
        (Throws (Has_message ''EACCES'')) [page_url 51, page_url 52, page_url 53]
       = Returns \<lparr>counters = \<lparr>allData = [], successCount = 0, failCount = 3\<rparr>, written = None\<rparr>"
    using file_written_only_with_rows
      [where browser = failing_browser and clock = example_clock and chunkNumber = "''0002''"
         and finishedAt = "''2024-01-01T00:20:00.000Z''"
         and save_result = "Throws (Has_message ''EACCES'')"
         and urls = "[page_url 51, page_url 52, page_url 53]"]
    by (simp add: failing_browser_fails)
qed

text \<open>
  Claim C7 as stated fails: when both pages of a chunk fail, the run ends with no file
  written, not with an empty one.
\<close>

theorem no_file_for_failed_chunk_counterexample:
  "process_chunk failing_browser example_clock ''0001'' ''2024-01-01T00:10:00.000Z'' (Returns ())
     [page_url 1, page_url 2]
   = Returns \<lparr>counters = \<lparr>allData = [], successCount = 0, failCount = 2\<rparr>, written = None\<rparr>"
proof -
  let ?urls = "[page_url 1, page_url 2]"
  have "scrape_loop failing_browser example_clock ?urls 0 initial_state =
        scrape_loop failing_browser example_clock ?urls (Suc 0) (count_page None initial_state)"
    by (subst scrape_loop.simps) (simp add: failing_browser_def scrapePage_challenge_page)
  also have "\<dots> = scrape_loop failing_browser example_clock ?urls (Suc (Suc 0))
                     (count_page None (count_page None initial_state))"
    by (subst scrape_loop.simps) (simp add: failing_browser_def scrapePage_timeout_page)
  also have "\<dots> = Returns (count_page None (count_page None initial_state))"
    by (subst scrape_loop.simps) simp
  also have "count_page None (count_page None initial_state) =
             \<lparr>allData = [], successCount = 0, failCount = 2\<rparr>"
    by (simp add: count_page_def initial_state_def)
  finally have "scrape_loop failing_browser example_clock ?urls 0 initial_state =
      Returns \<lparr>allData = [], successCount = 0, failCount = 2\<rparr>" .
  then show ?thesis
    by (simp add: process_chunk_def initial_state_def)
qed

lemma page_rows_valid:
  assumes "r \<in> set (page_rows browser clock urls j)"
  shows "domain r \<noteq> [] \<or> ipAddress r \<noteq> []"
proof -
  from assms obtain rows where
      "scrapePage (clock j) (browser j (urls ! j)) = Returns (Some rows)" "r \<in> set rows"
    by (auto simp: page_rows_def page_data_def split: option.splits outcome.splits)
  then show ?thesis by (rule scrapePage_valid)
qed

text \<open>
  Claim C3. For the row made from the data row at position \<open>index\<close> of the table, the
  extraction keeps it exactly when its domain or its IP address is non-empty: it is kept
  when only the domain is empty, and dropped when both are empty. No row of the
  extraction output has both fields empty, and neither has any row of a file that the
  chunk runner writes.
\<close>

theorem rows_without_domain_and_ip_dropped:
  "(sites_tbl doc = Some rows \<and> index < length (drop 1 rows) \<and>
    r = extract_row (location_href doc) (now index) index (drop 1 rows ! index)
    \<longrightarrow> (domain r = [] \<and> ipAddress r \<noteq> [] \<longrightarrow> r \<in> set (extract_table now doc))
      \<and> (domain r = [] \<and> ipAddress r = [] \<longrightarrow> r \<notin> set (extract_table now doc))
      \<and> (r \<in> set (extract_table now doc) \<longleftrightarrow> domain r \<noteq> [] \<or> ipAddress r \<noteq> []))
   \<and> (x \<in> set (extract_table now doc) \<longrightarrow> \<not> (domain x = [] \<and> ipAddress x = []))
   \<and> (process_chunk browser clock chunkNumber finishedAt save_result urls = Returns run \<and>
      written run = Some (file, data) \<and> y \<in> set data
      \<longrightarrow> \<not> (domain y = [] \<and> ipAddress y = []))"
proof (intro conjI impI)
  assume a: "sites_tbl doc = Some rows \<and> index < length (drop 1 rows) \<and>
    r = extract_row (location_href doc) (now index) index (drop 1 rows ! index)"
  then have m: "r \<in> set (extract_table now doc) \<longleftrightarrow> domain r \<noteq> [] \<or> ipAddress r \<noteq> []"
    using extract_table_member[of doc rows index now] by blast
  show "r \<in> set (extract_table now doc) \<longleftrightarrow> domain r \<noteq> [] \<or> ipAddress r \<noteq> []"
    by (rule m)
  {
    assume "domain r = [] \<and> ipAddress r \<noteq> []"
    then show "r \<in> set (extract_table now doc)" using m by blast
  }
  {
    assume "domain r = [] \<and> ipAddress r = []"
    then show "r \<notin> set (extract_table now doc)" using m by blast
  }
next
  assume "x \<in> set (extract_table now doc)"
  then show "\<not> (domain x = [] \<and> ipAddress x = [])"
    using extract_table_valid by blast
next
  assume a: "process_chunk browser clock chunkNumber finishedAt save_result urls = Returns run \<and>
      written run = Some (file, data) \<and> y \<in> set data"
  then have r: "process_chunk browser clock chunkNumber finishedAt save_result urls = Returns run"
    by simp
  note p = process_chunk_returns[OF r]
  have "allData (counters run) = concat (map (page_rows browser clock urls) [0 ..< length urls])"
    using p scrape_loop_counts[of browser clock urls "counters run"] by simp
  moreover have "data = allData (counters run)"
    using a p by (auto split: if_splits)
  ultimately obtain j where "y \<in> set (page_rows browser clock urls j)"
    using a by auto
  then show "\<not> (domain y = [] \<and> ipAddress y = [])"
    using page_rows_valid by blast
qed

theorem rows_without_domain_and_ip_dropped_witness:
  "extract_row ''https://myip.ms/browse/sites/1'' (example_clock 0 1) 1 ip_only_cells
      \<in> set (extract_table (example_clock 0) table_document)
   \<and> extract_row ''https://myip.ms/browse/sites/1'' (example_clock 0 2) 2 blank_cells
      \<notin> set (extract_table (example_clock 0) table_document)"
proof
  let ?rows = "[header_cells, full_cells, ip_only_cells, blank_cells]"
  let ?now = "example_clock 0"
  have t: "sites_tbl table_document = Some ?rows"
    "location_href table_document = ''https://myip.ms/browse/sites/1''"
    by (simp_all add: table_document_def)
  have d: "domain (extract_row h n k ip_only_cells) = []"
          "ipAddress (extract_row h n k ip_only_cells) \<noteq> []"
          "domain (extract_row h n k blank_cells) = []"
          "ipAddress (extract_row h n k blank_cells) = []" for h n k
    by (simp_all add: domain_extract_row ipAddress_extract_row cell_text_def
          ip_only_cells_def blank_cells_def text_cell_def textContent_def trim_def is_space_def)
  let ?r1 = "extract_row ''https://myip.ms/browse/sites/1'' (?now 1) 1 ip_only_cells"
  have "sites_tbl table_document = Some ?rows \<and> 1 < length (drop 1 ?rows) \<and>
        ?r1 = extract_row (location_href table_document) (?now 1) 1 (drop 1 ?rows ! 1)"
    using t by simp
  then show "?r1 \<in> set (extract_table ?now table_document)"
    using rows_without_domain_and_ip_dropped[of table_document ?rows 1 ?r1 ?now] d(1,2)
    by blast
next
  let ?rows = "[header_cells, full_cells, ip_only_cells, blank_cells]"
  let ?now = "example_clock 0"
  have t: "sites_tbl table_document = Some ?rows"
    "location_href table_document = ''https://myip.ms/browse/sites/1''"
    by (simp_all add: table_document_def)
  have d: "domain (extract_row h n k blank_cells) = []"
          "ipAddress (extract_row h n k blank_cells) = []" for h n k
    by (simp_all add: domain_extract_row ipAddress_extract_row cell_text_def
          blank_cells_def text_cell_def textContent_def trim_def is_space_def)
  let ?r2 = "extract_row ''https://myip.ms/browse/sites/1'' (?now 2) 2 blank_cells"
  have "sites_tbl table_document = Some ?rows \<and> 2 < length (drop 1 ?rows) \<and>
        ?r2 = extract_row (location_href table_document) (?now 2) 2 (drop 1 ?rows ! 2)"
    using t by simp
  then show "?r2 \<notin> set (extract_table ?now table_document)"
    using rows_without_domain_and_ip_dropped[of table_document ?rows 2 ?r2 ?now] d
    by blast
qed
section \<open>Chunk files: proofs\<close>

lemma page_url_1_2_3:
  "page_url 1 = ''https://myip.ms/browse/sites/1/rankii/15000000/ipID/23.227.38.0/ipIDii/23.227.38.255''"
  "page_url 2 = ''https://myip.ms/browse/sites/2/rankii/15000000/ipID/23.227.38.0/ipIDii/23.227.38.255''"
  "page_url 3 = ''https://myip.ms/browse/sites/3/rankii/15000000/ipID/23.227.38.0/ipIDii/23.227.38.255''"
  by code_simp+

lemma partition_3_2: "partition 3 2 = Some [[page_url 1, page_url 2], [page_url 3]]"
proof -
  have "generateUrlList 3 = [page_url 1, page_url 2, page_url 3]"
    by (simp add: generateUrlList_def upto.simps)
  moreover have "blocks 2 [a, b, c] = [[a, b], [c]]" for a b c :: string
    by (simp add: blocks.simps)
  ultimately show ?thesis
    using chunkUrls_blocks[of 2 "generateUrlList 3"] by (simp add: partition_def)
qed

lemma chunk_names:
  "chunk_file_name (padStart 4 (CHR ''0'') (decimal (Suc 0))) = ''chunk_0001.txt''"
  "chunk_file_name (padStart 4 (CHR ''0'') (decimal (Suc (Suc 0)))) = ''chunk_0002.txt''"
  "chunk_file_name ''1'' = ''chunk_1.txt''"
  "chunk_file_name ''0001'' = ''chunk_0001.txt''"
  by code_simp+

lemma split_on_no_sep: "sep \<notin> set s \<Longrightarrow> split_on sep s = [s]"
  by (induction s) auto

lemma split_on_append:
  "sep \<notin> set s \<Longrightarrow> split_on sep (s @ sep # t) = s # split_on sep t"
  by (induction s) auto

lemma page_url_no_newline: "CHR 0x0A \<notin> set (page_url 1)" "CHR 0x0A \<notin> set (page_url 2)"
  unfolding page_url_1_2_3 by simp_all

lemma page_url_not_blank: "trim (page_url 1) \<noteq> []" "trim (page_url 2) \<noteq> []"
  unfolding page_url_1_2_3 trim_empty_iff by (simp_all add: is_space_def)

lemma length_decimal_pos: "0 < length (decimal n)"
  by (subst decimal.simps) simp

lemma length_decimal_small: "n < 1000 \<Longrightarrow> length (decimal n) \<le> 3"
proof -
  assume n: "n < 1000"
  have one: "length (decimal m) = 1" if "m < 10" for m
    using that by (subst decimal.simps) simp
  have two: "length (decimal m) \<le> 2" if "m < 100" for m
  proof (cases "m < 10")
    case True
    then show ?thesis by (simp add: one)
  next
    case False
    have "m div 10 < 10" using that by simp
    then show ?thesis using False one[of "m div 10"] by (subst decimal.simps) simp
  qed
  show ?thesis
  proof (cases "n < 10")
    case True
    then show ?thesis by (simp add: one)
  next
    case False
    have "n div 10 < 100" using n by simp
    then show ?thesis using False two[of "n div 10"] by (subst decimal.simps) simp
  qed
qed

lemma length_padStart: "length (padStart n c s) = max n (length s)"
  by (simp add: padStart_def)

lemma write_chunks_other:
  "(\<forall>j. name \<noteq> chunk_file_name (padStart 4 (CHR ''0'') (decimal j))) \<Longrightarrow>
   write_chunks dir i chunks name = dir name"
  by (induction chunks arbitrary: dir i) auto

lemma unpadded_name_not_written:
  assumes "n < 1000"
  shows "chunk_file_name (decimal n) \<noteq> chunk_file_name (padStart 4 (CHR ''0'') (decimal j))"
proof
  assume "chunk_file_name (decimal n) = chunk_file_name (padStart 4 (CHR ''0'') (decimal j))"
  then have "length (decimal n) = length (padStart 4 (CHR ''0'') (decimal j))"
    by (simp add: chunk_file_name_def)
  then show False using length_decimal_small[OF assms] by (simp add: length_padStart)
qed

lemma chunk_file_name_cleared: "clear_chunk_files dir (chunk_file_name s) = None"
  by (simp add: clear_chunk_files_def chunk_file_name_def startsWith_def endsWith_def)

lemma unpadded_chunk_number_not_found:
  assumes "n < 1000"
  shows "loadUrlsFromChunk (saveChunks totalPages chunkSize generatedAt dir chunks) (decimal n) =
         Inl (ChunkFileNotFound (chunk_file_name (decimal n)))"
proof -
  have m: "chunk_file_name (decimal n) \<noteq> ''manifest.json''"
    by (simp add: chunk_file_name_def)
  have "write_chunks (clear_chunk_files dir) 0 chunks (chunk_file_name (decimal n)) =
        clear_chunk_files dir (chunk_file_name (decimal n))"
    using unpadded_name_not_written[OF assms] by (intro write_chunks_other) blast
  then have "saveChunks totalPages chunkSize generatedAt dir chunks (chunk_file_name (decimal n)) = None"
    using m by (simp add: saveChunks_def chunk_file_name_cleared)
  then show ?thesis by (simp add: loadUrlsFromChunk_def)
qed

lemma digit_char_value: "d < 10 \<Longrightarrow> of_char (digit_char d) - 48 = d"
proof -
  assume "d < 10"
  then have "d = 0 \<or> d = 1 \<or> d = 2 \<or> d = 3 \<or> d = 4 \<or> d = 5 \<or> d = 6 \<or> d = 7 \<or> d = 8 \<or> d = 9"
    by arith
  then show ?thesis
    by (elim disjE) (simp_all add: digit_char_def)
qed

lemma digits_value_snoc: "digits_value (s @ [c]) = 10 * digits_value s + (of_char c - 48)"
  by (simp add: digits_value_def)

lemma digits_value_decimal: "digits_value (decimal n) = n"
proof (induction n rule: decimal.induct)
  case (1 n)
  show ?case
  proof (cases "n < 10")
    case True
    then show ?thesis
      by (subst decimal.simps) (simp add: digits_value_def digit_char_value)
  next
    case False
    then have "digits_value (decimal (n div 10)) = n div 10" using 1 by simp
    then show ?thesis using False
      by (subst decimal.simps) (simp add: digits_value_snoc digit_char_value)
  qed
qed

lemma digits_value_zeros: "digits_value (replicate k (CHR ''0'') @ s) = digits_value s"
proof -
  have "foldl (\<lambda>a c. 10 * a + (of_char c - 48)) 0 (replicate k (CHR ''0'')) = (0::nat)"
    by (induction k) simp_all
  then show ?thesis by (simp add: digits_value_def)
qed

lemma padded_number_inj:
  "padStart 4 (CHR ''0'') (decimal a) = padStart 4 (CHR ''0'') (decimal b) \<Longrightarrow> a = b"
proof -
  assume "padStart 4 (CHR ''0'') (decimal a) = padStart 4 (CHR ''0'') (decimal b)"
  then have "digits_value (padStart 4 (CHR ''0'') (decimal a)) =
             digits_value (padStart 4 (CHR ''0'') (decimal b))" by simp
  then show "a = b" by (simp add: padStart_def digits_value_zeros digits_value_decimal)
qed

lemma chunk_name_inj:
  "chunk_file_name (padStart 4 (CHR ''0'') (decimal a)) =
   chunk_file_name (padStart 4 (CHR ''0'') (decimal b)) \<Longrightarrow> a = b"
  by (rule padded_number_inj) (simp add: chunk_file_name_def)

lemma write_chunks_untouched:
  "(\<forall>j<length chunks. name \<noteq> chunk_file_name (padStart 4 (CHR ''0'') (decimal (i + j + 1)))) \<Longrightarrow>
   write_chunks dir i chunks name = dir name"
proof (induction chunks arbitrary: dir i)
  case Nil
  then show ?case by simp
next
  case (Cons chunk rest)
  have "\<forall>j<length rest. name \<noteq> chunk_file_name (padStart 4 (CHR ''0'') (decimal (Suc i + j + 1)))"
    using Cons.prems by auto
  then have "write_chunks
       (dir(chunk_file_name (padStart 4 (CHR ''0'') (decimal (i + 1))) \<mapsto> join [CHR 0x0A] chunk))
       (Suc i) rest name =
     (dir(chunk_file_name (padStart 4 (CHR ''0'') (decimal (i + 1))) \<mapsto> join [CHR 0x0A] chunk)) name"
    by (rule Cons.IH)
  moreover have "name \<noteq> chunk_file_name (padStart 4 (CHR ''0'') (decimal (i + 1)))"
    using Cons.prems by force
  ultimately show ?case by simp
qed

lemma write_chunks_lookup:
  "k < length chunks \<Longrightarrow>
   write_chunks dir i chunks (chunk_file_name (padStart 4 (CHR ''0'') (decimal (i + k + 1)))) =
     Some (join [CHR 0x0A] (chunks ! k))"
proof (induction chunks arbitrary: dir i k)
  case Nil
  then show ?case by simp
next
  case (Cons chunk rest)
  show ?case
  proof (cases k)
    case 0
    have "\<forall>j<length rest. chunk_file_name (padStart 4 (CHR ''0'') (decimal (i + 1))) \<noteq>
            chunk_file_name (padStart 4 (CHR ''0'') (decimal (Suc i + j + 1)))"
      using chunk_name_inj by fastforce
    then show ?thesis using 0 by (simp add: write_chunks_untouched)
  next
    case (Suc j)
    then have "j < length rest" using Cons.prems by simp
    then have "write_chunks
       (dir(chunk_file_name (padStart 4 (CHR ''0'') (decimal (i + 1))) \<mapsto> join [CHR 0x0A] chunk))
       (Suc i) rest (chunk_file_name (padStart 4 (CHR ''0'') (decimal (Suc i + j + 1)))) =
       Some (join [CHR 0x0A] (rest ! j))"
      by (rule Cons.IH)
    then show ?thesis using Suc by simp
  qed
qed

lemma split_on_join:
  "xs \<noteq> [] \<Longrightarrow> \<forall>x\<in>set xs. sep \<notin> set x \<Longrightarrow> split_on sep (join [sep] xs) = xs"
proof (induction "[sep]" xs rule: join.induct)
  case 1
  then show ?case by simp
next
  case (2 x)
  then show ?case by (simp add: split_on_no_sep)
next
  case (3 x y ys)
  then show ?case by (simp add: split_on_append)
qed

lemma decimal_digits: "c \<in> set (decimal n) \<Longrightarrow> c \<in> set ''0123456789''"
proof (induction n rule: decimal.induct)
  case (1 n)
  have d: "digit_char m \<in> set ''0123456789''" if "m < 10" for m
    unfolding digit_char_def using that by (intro nth_mem) simp
  show ?case
  proof (cases "n < 10")
    case True
    then show ?thesis using "1.prems" d[of n] by (subst (asm) decimal.simps) simp
  next
    case False
    from "1.prems" have "c \<in> set (decimal (n div 10)) \<or> c = digit_char (n mod 10)"
      using False by (subst (asm) decimal.simps) auto
    then show ?thesis using "1.IH" False d[of "n mod 10"] by auto
  qed
qed

lemma page_url_no_newline_general: "CHR 0x0A \<notin> set (page_url p)"
proof -
  have "CHR 0x0A \<notin> set (number_toString p)"
    using decimal_digits[of "CHR 0x0A"] by (auto simp: number_toString_def)
  then show ?thesis by (simp add: page_url_eq)
qed

lemma page_url_not_blank_general: "trim (page_url p) \<noteq> []"
  by (simp add: trim_empty_iff page_url_eq is_space_def)

lemma padded_chunk_number_round_trip:
  assumes "1 \<le> quota" and "partition totalPages quota = Some chunks"
    and "1 \<le> n" and "n \<le> length chunks"
  shows "loadUrlsFromChunk (saveChunks tp cs generatedAt dir chunks)
           (padStart 4 (CHR ''0'') (decimal n)) = Inr (chunks ! (n - 1))"
proof -
  let ?urls = "generateUrlList totalPages"
  let ?c = "chunks ! (n - 1)"
  let ?name = "chunk_file_name (padStart 4 (CHR ''0'') (decimal n))"
  have q: "0 < nat quota" using assms(1) by simp
  have b: "chunks = blocks (nat quota) ?urls"
    using assms(1,2) by (simp add: partition_def chunkUrls_blocks)
  have k: "n - 1 < length chunks" using assms(3,4) by simp
  then have mem: "?c \<in> set chunks" by (rule nth_mem)
  then have ne: "?c \<noteq> []" using blocks_nonempty[OF q] b by blast
  have "set ?c \<subseteq> set (concat chunks)" using mem by auto
  also have "concat chunks = ?urls" unfolding b using q by (rule concat_blocks)
  finally have "\<forall>u\<in>set ?c. \<exists>p. u = page_url p"
    by (auto simp: generateUrlList_def)
  then have u: "\<forall>u\<in>set ?c. CHR 0x0A \<notin> set u" "\<forall>u\<in>set ?c. trim u \<noteq> []"
    using page_url_no_newline_general page_url_not_blank_general by (metis, metis)
  have "write_chunks (clear_chunk_files dir) 0 chunks
          (chunk_file_name (padStart 4 (CHR ''0'') (decimal (0 + (n - 1) + 1)))) =
        Some (join [CHR 0x0A] ?c)"
    using k by (rule write_chunks_lookup)
  moreover have "0 + (n - 1) + 1 = n" using assms(3) by simp
  ultimately have w: "write_chunks (clear_chunk_files dir) 0 chunks ?name = Some (join [CHR 0x0A] ?c)"
    by simp
  have "?name \<noteq> ''manifest.json''" by (simp add: chunk_file_name_def)
  then have f: "saveChunks tp cs generatedAt dir chunks ?name = Some (join [CHR 0x0A] ?c)"
    using w by (simp add: saveChunks_def)
  have s: "split_on (CHR 0x0A) (join [CHR 0x0A] ?c) = ?c"
    using ne u(1) by (rule split_on_join)
  have "filter (\<lambda>url. trim url \<noteq> []) ?c = ?c"
    using u(2) by (simp add: filter_id_conv)
  then show ?thesis
    using f s ne by (simp add: loadUrlsFromChunk_def)
qed

text \<open>
  Claim C9 fails on the code at chunk 1. The partitioner writes the first chunk of
  \<open>partition 3 2\<close> to \<^verbatim>\<open>chunk_0001.txt\<close>; the entry point, given the chunk number \<open>1\<close> as its
  usage message says, reads \<^verbatim>\<open>chunk_1.txt\<close>, which \<^verbatim>\<open>saveChunks\<close> has not written, and
  fails. Only the padded identifier \<open>0001\<close> gives the URLs of the chunk back. (In general,
  no chunk number below 1000 written without padding finds its file, and the padded
  number always does: lemmas \<open>unpadded_chunk_number_not_found\<close> and
  \<open>padded_chunk_number_round_trip\<close>.)
\<close>

theorem chunk_number_finds_no_file:
  "partition 3 2 = Some [[page_url 1, page_url 2], [page_url 3]]
   \<and> saveChunks 3 2 ''2024-01-01T00:00:00.000Z'' Map.empty [[page_url 1, page_url 2], [page_url 3]]
        ''chunk_0001.txt'' = Some (page_url 1 @ [CHR 0x0A] @ page_url 2)
   \<and> loadUrlsFromChunk
        (saveChunks 3 2 ''2024-01-01T00:00:00.000Z'' Map.empty [[page_url 1, page_url 2], [page_url 3]])
        ''1'' = Inl (ChunkFileNotFound ''chunk_1.txt'')
   \<and> loadUrlsFromChunk
        (saveChunks 3 2 ''2024-01-01T00:00:00.000Z'' Map.empty [[page_url 1, page_url 2], [page_url 3]])
        ''0001'' = Inr [page_url 1, page_url 2]"
proof (intro conjI)
  let ?dir = "saveChunks 3 2 ''2024-01-01T00:00:00.000Z'' Map.empty [[page_url 1, page_url 2], [page_url 3]]"
  show "partition 3 2 = Some [[page_url 1, page_url 2], [page_url 3]]"
    by (rule partition_3_2)
  have w: "?dir = (\<lambda>file. None)
      (''chunk_0001.txt'' \<mapsto> page_url 1 @ [CHR 0x0A] @ page_url 2,
       ''chunk_0002.txt'' \<mapsto> page_url 3,
       ''manifest.json'' \<mapsto> manifest_json 3 2 (Suc (Suc 0)) ''2024-01-01T00:00:00.000Z'')"
    by (simp add: saveChunks_def chunk_names clear_chunk_files_def)
  show f: "?dir ''chunk_0001.txt'' = Some (page_url 1 @ [CHR 0x0A] @ page_url 2)"
    unfolding w by simp
  show "loadUrlsFromChunk ?dir ''1'' = Inl (ChunkFileNotFound ''chunk_1.txt'')"
    unfolding w by (simp add: loadUrlsFromChunk_def chunk_names)
  have "split_on (CHR 0x0A) (page_url 1 @ CHR 0x0A # page_url 2) = [page_url 1, page_url 2]"
    by (simp add: split_on_append split_on_no_sep page_url_no_newline)
  then show "loadUrlsFromChunk ?dir ''0001'' = Inr [page_url 1, page_url 2]"
    using f by (simp add: loadUrlsFromChunk_def chunk_names page_url_not_blank)
qed
section \<open>Consolidation: proofs\<close>

lemma newer_stamp:
  "newer (get_prop r ''_source_timestamp'') (get_prop old ''_source_timestamp'') \<longleftrightarrow> stamp old < stamp r"
proof (cases "get_prop r ''_source_timestamp''")
  case None
  then show ?thesis by (simp add: stamp_def)
next
  case (Some v)
  show ?thesis
  proof (cases v)
    case Null
    with Some show ?thesis by (simp add: stamp_def)
  next
    case (Str a)
    show ?thesis
    proof (cases "get_prop old ''_source_timestamp''")
      case None
      with Some Str show ?thesis by (cases a) (simp_all add: stamp_def)
    next
      case old: (Some w)
      show ?thesis
      proof (cases w)
        case Null
        with Some Str old show ?thesis by (cases a) (simp_all add: stamp_def)
      next
        case (Str b)
        with Some \<open>v = Str a\<close> old show ?thesis
          by (cases a; cases b) (simp_all add: stamp_def)
      qed
    qed
  qed
qed

lemma map_of_dedup_step:
  "map_of (dedup_step m r) k = (if dedup_key r = k then pick (map_of m k) r else map_of m k)"
  by (auto simp: dedup_step_def Let_def pick_def newer_stamp AList.update_conv' split: option.splits)

lemma map_of_foldl_dedup_step:
  "map_of (foldl dedup_step m data) k =
     foldl pick (map_of m k) (filter (\<lambda>r. dedup_key r = k) data)"
  by (induction data arbitrary: m) (simp_all add: map_of_dedup_step)

lemma set_update_subset: "p \<in> set (AList.update k v al) \<Longrightarrow> p = (k, v) \<or> p \<in> set al"
  by (induction al) (auto split: if_splits)

lemma dedup_step_keys:
  assumes "distinct (map fst m)" and "\<forall>p\<in>set m. dedup_key (snd p) = fst p"
  shows "distinct (map fst (dedup_step m r)) \<and> (\<forall>p\<in>set (dedup_step m r). dedup_key (snd p) = fst p)"
proof -
  have "distinct (map fst (AList.update (dedup_key r) r m))"
    using assms(1) by (rule AList.distinct_update)
  moreover have "\<forall>p\<in>set (AList.update (dedup_key r) r m). dedup_key (snd p) = fst p"
    using assms(2) set_update_subset[of _ "dedup_key r" r m] by fastforce
  ultimately show ?thesis
    using assms by (simp add: dedup_step_def Let_def split: option.splits)
qed

lemma foldl_dedup_step_keys:
  assumes "distinct (map fst m)" and "\<forall>p\<in>set m. dedup_key (snd p) = fst p"
  shows "distinct (map fst (foldl dedup_step m data)) \<and>
         (\<forall>p\<in>set (foldl dedup_step m data). dedup_key (snd p) = fst p)"
  using assms
proof (induction data arbitrary: m)
  case Nil
  then show ?case by simp
next
  case (Cons r data)
  have "distinct (map fst (dedup_step m r)) \<and> (\<forall>p\<in>set (dedup_step m r). dedup_key (snd p) = fst p)"
    using Cons.prems by (rule dedup_step_keys)
  then show ?case using Cons.IH[of "dedup_step m r"] by simp
qed

lemma one_entry_per_key:
  assumes "distinct (map fst m)" and "\<forall>p\<in>set m. key (snd p) = fst p"
  shows "filter (\<lambda>r. key r = k) (map snd m) = (case map_of m k of None \<Rightarrow> [] | Some r \<Rightarrow> [r])"
  using assms
proof (induction m)
  case Nil
  then show ?case by simp
next
  case (Cons p m)
  have ih: "filter (\<lambda>r. key r = k) (map snd m) = (case map_of m k of None \<Rightarrow> [] | Some r \<Rightarrow> [r])"
    using Cons by simp
  show ?case
  proof (cases "fst p = k")
    case True
    then have "k \<notin> fst ` set m" using Cons.prems(1) by auto
    then have "map_of m k = None" by (simp add: map_of_eq_None_iff)
    then show ?thesis using ih True Cons.prems(2) by (cases p) simp
  next
    case False
    then show ?thesis using ih Cons.prems(2) by (cases p) auto
  qed
qed

lemma deduplicateData_key:
  "filter (\<lambda>r. dedup_key r = k) (deduplicateData data) =
     (case foldl pick None (filter (\<lambda>r. dedup_key r = k) data) of None \<Rightarrow> [] | Some r \<Rightarrow> [r])"
proof -
  have "distinct (map fst (foldl dedup_step [] data)) \<and>
        (\<forall>p\<in>set (foldl dedup_step [] data). dedup_key (snd p) = fst p)"
    by (rule foldl_dedup_step_keys) simp_all
  then have "filter (\<lambda>r. dedup_key r = k) (map snd (foldl dedup_step [] data)) =
      (case map_of (foldl dedup_step [] data) k of None \<Rightarrow> [] | Some r \<Rightarrow> [r])"
    using one_entry_per_key[of "foldl dedup_step [] data" dedup_key k] by blast
  then show ?thesis
    by (simp add: deduplicateData_def map_of_foldl_dedup_step)
qed

lemma get_prop_set_prop:
  "get_prop (set_prop name v obj) name' = (if name' = name then Some v else get_prop obj name')"
  by (simp add: get_prop_def set_prop_def AList.update_conv')

lemma get_prop_delete_prop:
  "get_prop (delete_prop name obj) name' = (if name' = name then None else get_prop obj name')"
  by (simp add: get_prop_def delete_prop_def AList.delete_conv')

lemma get_prop_annotate:
  "name \<noteq> ''_source_file'' \<Longrightarrow> name \<noteq> ''_source_timestamp'' \<Longrightarrow>
   get_prop (annotate file r) name = get_prop r name"
  by (simp add: annotate_def get_prop_set_prop)

lemma get_prop_strip_metadata:
  "name \<noteq> ''_source_file'' \<Longrightarrow> name \<noteq> ''_source_timestamp'' \<Longrightarrow>
   get_prop (strip_metadata r) name = get_prop r name"
  by (simp add: strip_metadata_def get_prop_delete_prop)

lemma dedup_key_annotate [simp]: "dedup_key (annotate file r) = dedup_key r"
  by (simp add: dedup_key_def get_prop_annotate)

lemma dedup_key_strip_metadata [simp]: "dedup_key (strip_metadata r) = dedup_key r"
  by (simp add: dedup_key_def get_prop_strip_metadata)

lemma stamp_annotate:
  "stamp (annotate file r) = (case extractTimestamp file of None \<Rightarrow> [] | Some t \<Rightarrow> t)"
  by (simp add: stamp_def annotate_def get_prop_set_prop split: option.splits)

lemma extractTimestamp_nonempty: "extractTimestamp fname = Some t \<Longrightarrow> t \<noteq> []"
  by (induction fname) (auto simp: stamp_shape_def split: if_splits)

lemma foldl_pick_keep:
  "\<forall>x\<in>set xs. stamp x \<le> stamp b \<Longrightarrow> foldl pick (Some b) xs = Some b"
  by (induction xs) (auto simp: pick_def)

lemma foldl_pick_low:
  assumes "\<forall>x\<in>set xs. stamp x < t"
    and "held = None \<or> (\<exists>a. held = Some a \<and> stamp a < t)"
  shows "foldl pick held xs = None \<or> (\<exists>a. foldl pick held xs = Some a \<and> stamp a < t)"
  using assms
proof (induction xs arbitrary: held)
  case Nil
  then show ?case by simp
next
  case (Cons x xs)
  have "pick held x = None \<or> (\<exists>a. pick held x = Some a \<and> stamp a < t)"
  proof (cases held)
    case None
    then show ?thesis using Cons.prems(1) by (simp add: pick_def)
  next
    case (Some a)
    then have "stamp a < t" using Cons.prems(2) by simp
    then show ?thesis using Some Cons.prems(1) by (cases "stamp a < stamp x") (simp_all add: pick_def)
  qed
  then show ?case using Cons.IH[of "pick held x"] Cons.prems(1) by simp
qed

lemma foldl_pick_first_latest:
  assumes "\<forall>x\<in>set pre. stamp x < stamp b" and "\<forall>x\<in>set post. stamp x \<le> stamp b"
  shows "foldl pick None (pre @ b # post) = Some b"
proof -
  have "foldl pick None pre = None \<or> (\<exists>a. foldl pick None pre = Some a \<and> stamp a < stamp b)"
    using assms(1) by (intro foldl_pick_low) simp_all
  then have "pick (foldl pick None pre) b = Some b"
    by (auto simp: pick_def)
  then show ?thesis using assms(2) by (simp add: foldl_pick_keep)
qed

lemma find_filter: "find P xs = Some x \<Longrightarrow> \<exists>ys. filter P xs = x # ys \<and> P x"
  by (induction xs) (auto split: if_splits)

lemma Nil_less_string: "t \<noteq> [] \<Longrightarrow> [] < (t :: string)"
  by (cases t) simp_all

lemma annotated_member:
  "x \<in> set (concat (map (\<lambda>(fname, data). map (annotate fname) data) files)) \<Longrightarrow>
   \<exists>fname data r. (fname, data) \<in> set files \<and> r \<in> set data \<and> x = annotate fname r"
  by auto

lemma filter_key_annotate:
  "filter (\<lambda>r. dedup_key r = k) (map (annotate fname) data) =
   map (annotate fname) (filter (\<lambda>r. dedup_key r = k) data)"
  by (simp add: filter_map comp_def)

lemma foldl_digits_shift:
  "foldl (\<lambda>a c. 10 * a + (of_char c - 48)) a xs =
     a * 10 ^ length xs + foldl (\<lambda>a c. 10 * a + (of_char c - 48)) (0::nat) xs"
proof (induction xs arbitrary: a)
  case Nil
  then show ?case by simp
next
  case (Cons x xs)
  have "foldl (\<lambda>a c. 10 * a + (of_char c - 48)) a (x # xs) =
        foldl (\<lambda>a c. 10 * a + (of_char c - 48)) (10 * a + (of_char x - 48)) xs" by simp
  also have "\<dots> = (10 * a + (of_char x - 48)) * 10 ^ length xs +
        foldl (\<lambda>a c. 10 * a + (of_char c - 48)) (0::nat) xs" by (rule Cons.IH)
  also have "foldl (\<lambda>a c. 10 * a + (of_char c - 48)) (0::nat) (x # xs) =
        (of_char x - 48) * 10 ^ length xs + foldl (\<lambda>a c. 10 * a + (of_char c - 48)) (0::nat) xs"
    using Cons.IH[of "of_char x - 48"] by simp
  ultimately show ?case by (simp add: algebra_simps)
qed

lemma digits_value_Cons:
  "digits_value (c # xs) = (of_char c - 48) * 10 ^ length xs + digits_value xs"
  using foldl_digits_shift[of "of_char c - 48" xs] by (simp add: digits_value_def)

lemma is_digit_value: "is_digit c \<Longrightarrow> (of_char c :: nat) - 48 \<le> 9 \<and> 48 \<le> (of_char c :: nat)"
proof -
  assume "is_digit c"
  then have "(48::nat) \<le> of_char c" "(of_char c :: nat) \<le> 57"
    by (simp_all add: is_digit_def less_eq_char_def)
  then show ?thesis by linarith
qed

lemma digits_value_bound: "\<forall>c\<in>set xs. is_digit c \<Longrightarrow> digits_value xs < 10 ^ length xs"
proof (induction xs)
  case Nil
  then show ?case by (simp add: digits_value_def)
next
  case (Cons x xs)
  then have a: "digits_value xs < 10 ^ length xs" by simp
  have "(of_char x :: nat) - 48 \<le> 9" using Cons.prems is_digit_value by simp
  then have b: "((of_char x :: nat) - 48) * 10 ^ length xs \<le> 9 * 10 ^ length xs"
    by (rule mult_le_mono1)
  have "((of_char x :: nat) - 48) * 10 ^ length xs + digits_value xs < 10 * 10 ^ length xs"
    using a b by linarith
  then show ?case by (simp add: digits_value_Cons)
qed

lemma compare_in_base:
  fixes x y u v P :: nat
  assumes "x < P" and "y < P"
  shows "u * P + x < v * P + y \<longleftrightarrow> u < v \<or> (u = v \<and> x < y)"
proof (cases u v rule: linorder_cases)
  case less
  then have "Suc u * P \<le> v * P" by (intro mult_le_mono1) simp
  then have "u * P + x < v * P + y" using assms(1) by simp
  then show ?thesis using less by simp
next
  case equal
  then show ?thesis by simp
next
  case greater
  then have "Suc v * P \<le> u * P" by (intro mult_le_mono1) simp
  then have "v * P + y < u * P + x" using assms(2) by simp
  then show ?thesis using greater by simp
qed

lemma digit_chars_compare:
  assumes "is_digit c" and "is_digit e"
  shows "c < e \<longleftrightarrow> (of_char c :: nat) - 48 < of_char e - 48"
    and "c = e \<longleftrightarrow> (of_char c :: nat) - 48 = of_char e - 48"
proof -
  have b: "48 \<le> (of_char c :: nat)" "48 \<le> (of_char e :: nat)"
    using assms is_digit_value by simp_all
  show "c < e \<longleftrightarrow> (of_char c :: nat) - 48 < of_char e - 48"
    using b by (simp add: less_char_def) linarith
  have "c = e \<longleftrightarrow> (of_char c :: nat) = of_char e" by simp
  then show "c = e \<longleftrightarrow> (of_char c :: nat) - 48 = of_char e - 48"
    using b by linarith
qed

lemma shape_order:
  assumes "\<forall>q\<in>set p. q \<noteq> CHR ''d'' \<longrightarrow> \<not> is_digit q"
    and "length a = length p" and "length b = length p"
    and "match_here p a" and "match_here p b"
  shows "length (filter is_digit a) = length (filter is_digit b) \<and>
         (a < b \<longleftrightarrow> digits_value (filter is_digit a) < digits_value (filter is_digit b))"
  using assms
proof (induction p arbitrary: a b)
  case Nil
  then show ?case by simp
next
  case (Cons q ps)
  obtain c as where a: "a = c # as" using Cons.prems(2) by (cases a) auto
  obtain e bs where b: "b = e # bs" using Cons.prems(3) by (cases b) auto
  have ih: "length (filter is_digit as) = length (filter is_digit bs) \<and>
         (as < bs \<longleftrightarrow> digits_value (filter is_digit as) < digits_value (filter is_digit bs))"
    using Cons.prems a b by (intro Cons.IH) simp_all
  show ?case
  proof (cases "q = CHR ''d''")
    case True
    then have d: "is_digit c" "is_digit e" using Cons.prems(4,5) a b by simp_all
    let ?fa = "filter is_digit as" and ?fb = "filter is_digit bs"
    have bound: "digits_value ?fa < 10 ^ length ?fa" "digits_value ?fb < 10 ^ length ?fa"
      using digits_value_bound[of ?fa] digits_value_bound[of ?fb] ih by simp_all
    have "a < b \<longleftrightarrow> c < e \<or> (c = e \<and> as < bs)" by (simp add: a b)
    also have "\<dots> \<longleftrightarrow> (of_char c :: nat) - 48 < of_char e - 48 \<or>
          ((of_char c :: nat) - 48 = of_char e - 48 \<and> digits_value ?fa < digits_value ?fb)"
      using digit_chars_compare[OF d] ih by simp
    also have "\<dots> \<longleftrightarrow> ((of_char c :: nat) - 48) * 10 ^ length ?fa + digits_value ?fa
                       < (of_char e - 48) * 10 ^ length ?fa + digits_value ?fb"
      using compare_in_base[OF bound] by simp
    finally show ?thesis using d ih by (simp add: a b digits_value_Cons)
  next
    case False
    then have "c = q" "e = q" "\<not> is_digit q" using Cons.prems(1,4,5) a b by simp_all
    then show ?thesis using ih by (simp add: a b)
  qed
qed

lemma match_here_take:
  "match_here p s \<Longrightarrow> match_here p (take (length p) s) \<and> length (take (length p) s) = length p"
  by (induction p s rule: match_here.induct) simp_all

lemma extractTimestamp_shape:
  "extractTimestamp fname = Some t \<Longrightarrow> match_here stamp_shape t \<and> length t = length stamp_shape"
proof (induction fname)
  case Nil
  then show ?case by simp
next
  case (Cons c cs)
  show ?case
  proof (cases "match_here stamp_shape (c # cs)")
    case True
    then have "t = take (length stamp_shape) (c # cs)" using Cons.prems by simp
    then show ?thesis using match_here_take[OF True] by simp
  next
    case False
    then show ?thesis using Cons by simp
  qed
qed

lemma stamp_shape_literals: "\<forall>q\<in>set stamp_shape. q \<noteq> CHR ''d'' \<longrightarrow> \<not> is_digit q"
  by (simp add: stamp_shape_def is_digit_def less_eq_char_def)

lemma stamp_order_chronological:
  assumes "extractTimestamp file1 = Some t1" and "extractTimestamp file2 = Some t2"
  shows "t1 < t2 \<longleftrightarrow> stamp_number t1 < stamp_number t2"
  using shape_order[OF stamp_shape_literals, of t1 t2]
    extractTimestamp_shape[OF assms(1)] extractTimestamp_shape[OF assms(2)]
  by (simp add: stamp_number_def)

text \<open>
  Claim C2, as amended. The rows are grouped by the key that \<^verbatim>\<open>deduplicateData\<close> derives
  (the \<open>UniqueID\<close> property when it is a non-empty string, otherwise rank, hyphen, domain),
  and a set is later than another when the time stamp in its file name, read to the
  second, is later. Let a partial result set (a file whose name carries the time stamp
  \<open>tB\<close>) have a row with the key \<open>k\<close>, and let every other set with a row of that key carry
  an earlier time stamp (or none). Then, in whatever order the sets are read, the consolidated data
  has exactly one row with the key \<open>k\<close>: the row of the later-stamped set (its first row
  with that key), with the values of all its fields. In particular this holds for two
  sets, one stamped earlier and one later. The time stamps are the ones \<^verbatim>\<open>extractTimestamp\<close>
  finds in the file names (date and time to the second); the script compares them as
  strings, which for such stamps is the order of their date and time.
\<close>

theorem later_stamped_row_wins:
  assumes "(fileB, rowsB) \<in> set files"
    and "extractTimestamp fileB = Some tB"
    and "find (\<lambda>r. dedup_key r = k) rowsB = Some rB"
    and "\<forall>(fname, data) \<in> set files.
           (fname, data) = (fileB, rowsB) \<or> (\<forall>r\<in>set data. dedup_key r \<noteq> k) \<or>
           (case extractTimestamp fname of None \<Rightarrow> True | Some t \<Rightarrow> t < tB)"
  shows "filter (\<lambda>r. dedup_key r = k) (consolidate files) = [strip_metadata (annotate fileB rB)]
       \<and> (\<forall>name. name \<noteq> ''_source_file'' \<and> name \<noteq> ''_source_timestamp'' \<longrightarrow>
             get_prop (strip_metadata (annotate fileB rB)) name = get_prop rB name)
       \<and> (\<forall>fname t. extractTimestamp fname = Some t \<longrightarrow>
             (t < tB \<longleftrightarrow> stamp_number t < stamp_number tB))"
proof (intro conjI)
  let ?ann = "\<lambda>fs. concat (map (\<lambda>(fname, data). map (annotate fname) data) fs)"
  let ?key = "\<lambda>r. dedup_key r = k"
  let ?b = "annotate fileB rB"
  have sb: "stamp ?b = tB" using assms(2) by (simp add: stamp_annotate)
  have tB: "tB \<noteq> []" using assms(2) by (rule extractTimestamp_nonempty)
  obtain F1 F2 where F: "files = F1 @ (fileB, rowsB) # F2" "(fileB, rowsB) \<notin> set F1"
    using split_list_first[OF assms(1)] by blast
  obtain ys where ys: "filter ?key rowsB = rB # ys"
    using find_filter[OF assms(3)] by blast
  have other: "stamp x < tB"
    if "x \<in> set (filter ?key (?ann fs))" "set fs \<subseteq> set files" "(fileB, rowsB) \<notin> set fs" for x fs
  proof -
    from that(1) obtain fname data r where m: "(fname, data) \<in> set fs" "r \<in> set data" "x = annotate fname r"
      using annotated_member[of x fs] by auto
    have "dedup_key r = k" using that(1) m(3) by simp
    moreover have "(fname, data) \<noteq> (fileB, rowsB)" using m(1) that(3) by auto
    moreover have "(fname, data) \<in> set files" using m(1) that(2) by auto
    ultimately have "case extractTimestamp fname of None \<Rightarrow> True | Some t \<Rightarrow> t < tB"
      using assms(4) m(2) by fastforce
    then show ?thesis using m(3) tB
      by (cases "extractTimestamp fname") (simp_all add: stamp_annotate Nil_less_string)
  qed
  have any: "stamp x \<le> tB" if "x \<in> set (filter ?key (?ann fs))" "set fs \<subseteq> set files" for x fs
  proof -
    from that(1) obtain fname data r where m: "(fname, data) \<in> set fs" "r \<in> set data" "x = annotate fname r"
      using annotated_member[of x fs] by auto
    have k: "dedup_key r = k" using that(1) m(3) by simp
    have f: "(fname, data) \<in> set files" using m(1) that(2) by auto
    show ?thesis
    proof (cases "(fname, data) = (fileB, rowsB)")
      case True
      then show ?thesis using m(3) sb assms(2) by (simp add: stamp_annotate)
    next
      case False
      then have "case extractTimestamp fname of None \<Rightarrow> True | Some t \<Rightarrow> t < tB"
        using assms(4) f k m(2) by fastforce
      then show ?thesis using m(3)
        by (cases "extractTimestamp fname") (simp_all add: stamp_annotate)
    qed
  qed
  let ?pre = "filter ?key (?ann F1)"
  let ?post = "map (annotate fileB) ys @ filter ?key (?ann F2)"
  have c: "filter ?key (?ann files) = ?pre @ ?b # ?post"
    unfolding F(1) using ys by (simp add: filter_key_annotate)
  have sub: "set F1 \<subseteq> set files" "set F2 \<subseteq> set files"
    unfolding F(1) by auto
  have pre: "\<forall>x\<in>set ?pre. stamp x < stamp ?b"
  proof
    fix x assume "x \<in> set ?pre"
    from this sub(1) F(2) have "stamp x < tB" by (rule other)
    then show "stamp x < stamp ?b" by (simp only: sb)
  qed
  have post: "\<forall>x\<in>set ?post. stamp x \<le> stamp ?b"
  proof
    fix x assume "x \<in> set ?post"
    then consider "x \<in> set (map (annotate fileB) ys)" | "x \<in> set (filter ?key (?ann F2))"
      by auto
    then show "stamp x \<le> stamp ?b"
    proof cases
      case 1
      then show ?thesis using assms(2) by (auto simp: stamp_annotate)
    next
      case 2
      from this sub(2) have "stamp x \<le> tB" by (rule any)
      then show ?thesis by (simp only: sb)
    qed
  qed
  have w: "foldl pick None (filter ?key (?ann files)) = Some ?b"
    unfolding c using pre post by (rule foldl_pick_first_latest)
  have "filter ?key (deduplicateData (?ann files)) = [?b]"
    using w by (simp only: deduplicateData_key option.case)
  moreover have "filter ?key (map strip_metadata xs) = map strip_metadata (filter ?key xs)" for xs
    by (simp add: filter_map comp_def)
  ultimately show "filter ?key (consolidate files) = [strip_metadata ?b]"
    by (simp add: consolidate_def)
next
  show "\<forall>name. name \<noteq> ''_source_file'' \<and> name \<noteq> ''_source_timestamp'' \<longrightarrow>
             get_prop (strip_metadata (annotate fileB rB)) name = get_prop rB name"
    by (simp add: get_prop_strip_metadata get_prop_annotate)
next
  show "\<forall>fname t. extractTimestamp fname = Some t \<longrightarrow>
             (t < tB \<longleftrightarrow> stamp_number t < stamp_number tB)"
    using stamp_order_chronological[OF _ assms(2)] by blast
qed

lemma example_stamps:
  "extractTimestamp earlier_file = Some ''2024-01-01T10-00-00''"
  "extractTimestamp later_file = Some ''2024-01-02T09-30-00''"
  "''2024-01-01T10-00-00'' < ''2024-01-02T09-30-00''"
  by code_simp+

lemma example_keys:
  "dedup_key older_row = ''5-foo.com''" "dedup_key newer_row = ''5-foo.com''"
  "dedup_key other_row = ''6-bar.com''"
  by code_simp+

lemma example_stripped: "strip_metadata (annotate later_file newer_row) = newer_row"
  by code_simp

theorem later_stamped_row_wins_witness:
  "filter (\<lambda>r. dedup_key r = ''5-foo.com'')
      (consolidate [(later_file, [other_row, newer_row]), (earlier_file, [older_row])]) = [newer_row]
   \<and> filter (\<lambda>r. dedup_key r = ''5-foo.com'')
      (consolidate [(earlier_file, [older_row]), (later_file, [other_row, newer_row])]) = [newer_row]"
proof
  have f: "find (\<lambda>r. dedup_key r = ''5-foo.com'') [other_row, newer_row] = Some newer_row"
    by (simp add: example_keys)
  have ne: "(earlier_file, [older_row]) \<noteq> (later_file, [other_row, newer_row])"
    by simp
  show "filter (\<lambda>r. dedup_key r = ''5-foo.com'')
      (consolidate [(later_file, [other_row, newer_row]), (earlier_file, [older_row])]) = [newer_row]"
    using later_stamped_row_wins
      [of later_file "[other_row, newer_row]"
          "[(later_file, [other_row, newer_row]), (earlier_file, [older_row])]"
          "''2024-01-02T09-30-00''" "''5-foo.com''" newer_row, OF _ example_stamps(2) f]
    by (simp add: example_stamps example_stripped)
  show "filter (\<lambda>r. dedup_key r = ''5-foo.com'')
      (consolidate [(earlier_file, [older_row]), (later_file, [other_row, newer_row])]) = [newer_row]"
    using later_stamped_row_wins
      [of later_file "[other_row, newer_row]"
          "[(earlier_file, [older_row]), (later_file, [other_row, newer_row])]"
          "''2024-01-02T09-30-00''" "''5-foo.com''" newer_row, OF _ example_stamps(2) f]
    by (simp add: example_stamps example_stripped)
qed

text \<open>
  Claim C2 as stated fails in two ways. Of two sets written within the same second (their
  names differ in the milliseconds, which \<^verbatim>\<open>extractTimestamp\<close> does not read), the row of the
  one read first is kept, here the earlier one. And two rows with the same \<open>uniqueId\<close> whose
  ranks are \<open>1 2\<close> and \<open>1-2\<close> have different keys in \<^verbatim>\<open>deduplicateData\<close> (the files of the
  worker have no \<open>UniqueID\<close> column), so both are in the output.
\<close>

theorem later_set_not_always_kept_counterexample:
  "extractTimestamp first_file_of_second = Some ''2024-01-01T10-00-00''
   \<and> extractTimestamp second_file_of_second = Some ''2024-01-01T10-00-00''
   \<and> get_prop older_row ''Unique_ID'' = Some (Str ''5-foo.com'')
   \<and> get_prop newer_row ''Unique_ID'' = Some (Str ''5-foo.com'')
   \<and> consolidate [(first_file_of_second, [older_row]), (second_file_of_second, [newer_row])]
       = [older_row]
   \<and> get_prop spaced_rank_row ''Unique_ID'' = Some (Str ''1-2-foo.com'')
   \<and> get_prop hyphen_rank_row ''Unique_ID'' = Some (Str ''1-2-foo.com'')
   \<and> consolidate [(earlier_file, [spaced_rank_row]), (later_file, [hyphen_rank_row])]
       = [spaced_rank_row, hyphen_rank_row]"
  by (intro conjI) code_simp+

lemma dedup_key_csv_record: "dedup_key (csv_record r) = rank r @ ''-'' @ domain r"
  by (simp add: dedup_key_def csv_record_def get_prop_def)

text \<open>
  Claim C10. The key under which the consolidation files a record is its \<open>UniqueID\<close>
  property when that is a non-empty string, and otherwise the texts of \<open>Rank\<close> and \<open>Domain\<close>
  joined by a hyphen, with no change to white space. A file written by the worker has no
  column of that name (its column is \<open>Unique_ID\<close>), so the key of such a record is
  \<open>rank-domain\<close>; it differs from the \<open>uniqueId\<close> computed at extraction exactly when the rank
  or the domain contains white space.
\<close>

theorem dedup_key_is_unnormalised:
  "(get_prop record ''UniqueID'' = Some (Str u) \<and> u \<noteq> [] \<longrightarrow> dedup_key record = u)
   \<and> (\<not> truthy (get_prop record ''UniqueID'') \<longrightarrow>
        dedup_key record = template (get_prop record ''Rank'') @ ''-'' @ template (get_prop record ''Domain''))
   \<and> (\<not> truthy (get_prop record ''UniqueID'') \<and> get_prop record ''Rank'' = Some (Str rk) \<and>
      get_prop record ''Domain'' = Some (Str d) \<longrightarrow> dedup_key record = rk @ ''-'' @ d)
   \<and> dedup_key (csv_record (extract_row href now index cells)) =
        rank (extract_row href now index cells) @ ''-'' @ domain (extract_row href now index cells)
   \<and> (dedup_key (csv_record (extract_row href now index cells)) \<noteq> uniqueId (extract_row href now index cells)
        \<longleftrightarrow> (\<exists>c\<in>set (rank (extract_row href now index cells) @ domain (extract_row href now index cells)).
               is_space c))"
proof (intro conjI)
  let ?r = "extract_row href now index cells"
  show "get_prop record ''UniqueID'' = Some (Str u) \<and> u \<noteq> [] \<longrightarrow> dedup_key record = u"
    by (simp add: dedup_key_def)
  show "\<not> truthy (get_prop record ''UniqueID'') \<longrightarrow>
        dedup_key record = template (get_prop record ''Rank'') @ ''-'' @ template (get_prop record ''Domain'')"
    by (simp add: dedup_key_def)
  show "\<not> truthy (get_prop record ''UniqueID'') \<and> get_prop record ''Rank'' = Some (Str rk) \<and>
      get_prop record ''Domain'' = Some (Str d) \<longrightarrow> dedup_key record = rk @ ''-'' @ d"
    by (simp add: dedup_key_def)
  show "dedup_key (csv_record ?r) = rank ?r @ ''-'' @ domain ?r"
    by (rule dedup_key_csv_record)
  have "replace_ws (rank ?r @ ''-'' @ domain ?r) = rank ?r @ ''-'' @ domain ?r
        \<longleftrightarrow> (\<forall>c\<in>set (rank ?r @ ''-'' @ domain ?r). \<not> is_space c)"
    by (rule replace_ws_fixed_iff)
  also have "\<dots> \<longleftrightarrow> (\<forall>c\<in>set (rank ?r @ domain ?r). \<not> is_space c)"
    by (auto simp: is_space_def)
  finally show "dedup_key (csv_record ?r) \<noteq> uniqueId ?r
        \<longleftrightarrow> (\<exists>c\<in>set (rank ?r @ domain ?r). is_space c)"
    unfolding dedup_key_csv_record uniqueId_extract_row by metis
qed

theorem dedup_key_is_unnormalised_witness:
  "dedup_key [(''Rank'', Str ''7''), (''Domain'', Str ''x.com''), (''UniqueID'', Str ''7-x.com'')] = ''7-x.com''
   \<and> dedup_key [(''Rank'', Str ''7 a''), (''Domain'', Str ''x y.com''), (''UniqueID'', Str [])] = ''7 a-x y.com''
   \<and> dedup_key (csv_record (extract_row ''https://myip.ms/browse/sites/1'' ''2024-01-01T00:00:00.000Z'' 0
         [text_cell ''1 2'', text_cell ''foo.com''])) = ''1 2-foo.com''
   \<and> uniqueId (extract_row ''https://myip.ms/browse/sites/1'' ''2024-01-01T00:00:00.000Z'' 0
         [text_cell ''1 2'', text_cell ''foo.com'']) \<noteq> ''1 2-foo.com''"
proof (intro conjI)
  let ?a = "[(''Rank'', Str ''7''), (''Domain'', Str ''x.com''), (''UniqueID'', Str ''7-x.com'')]"
  let ?b = "[(''Rank'', Str ''7 a''), (''Domain'', Str ''x y.com''), (''UniqueID'', Str [])]"
  let ?cells = "[text_cell ''1 2'', text_cell ''foo.com'']"
  let ?r = "extract_row ''https://myip.ms/browse/sites/1'' ''2024-01-01T00:00:00.000Z'' 0 ?cells"
  show "dedup_key ?a = ''7-x.com''"
    using dedup_key_is_unnormalised[of ?a "''7-x.com''"] by (simp add: get_prop_def)
  show "dedup_key ?b = ''7 a-x y.com''"
    using dedup_key_is_unnormalised[of ?b _ "''7 a''" "''x y.com''"] by (simp add: get_prop_def)
  have rd: "rank ?r = ''1 2''" "domain ?r = ''foo.com''"
    by (simp_all add: extract_row_def Let_def cell_text_def text_cell_def textContent_def trim_def
          is_space_def)
  note t = dedup_key_is_unnormalised
      [of _ _ _ _ "''https://myip.ms/browse/sites/1''" "''2024-01-01T00:00:00.000Z''" 0 ?cells]
  show k: "dedup_key (csv_record ?r) = ''1 2-foo.com''"
    using t rd by simp
  have "\<exists>c\<in>set (rank ?r @ domain ?r). is_space c"
    unfolding rd by (simp add: is_space_def)
  then have "dedup_key (csv_record ?r) \<noteq> uniqueId ?r" using t by blast
  then show "uniqueId ?r \<noteq> ''1 2-foo.com''" using k by simp
qed

end
